theory Spec2Isabelle
  imports Main
begin

section \<open>Values, events and handlers\<close>

text \<open>
  Objects live in a heap and are named by their address. A JavaScript value that the
  lifecycle code passes around is \<open>undefined\<close>, a string, a reference to an object of the
  heap, or a plain object literal (its own properties in insertion order).
\<close>

type_synonym oid = nat

datatype val = Undefined | Str string | Ref oid | Obj "(string \<times> val) list"

datatype event = Close | Error | Warn | Info

text \<open>
  What a call can throw: the two contract violations of \<open>bind\<close>, the one of
  \<open>unbind\<close>, a \<open>TypeError\<close> (a method called on something that is not there), and
  whatever a listener installed by the user throws.
\<close>

datatype exn =
    NullParameter
  | DoubleBound string string
  | NotBound
  | TypeError
  | UserThrown val

datatype outcome = Ok | Thrown exn

text \<open>
  The closures that \<open>index.js\<close> registers as listeners, one constructor per closure of
  the source, carrying the variables the closure captures:
  \<^item> \<open>Set_failed c\<close>: \<open>this.on('error', set_failed)\<close> of component \<open>c\<close>;
  \<^item> \<open>On_parent_close child\<close>: \<open>on_parent_close\<close> of \<open>bind_child_to_parent\<close>;
  \<^item> \<open>Relay_warn parent\<close>, \<open>Relay_info parent\<close>: \<open>data => parent.emit('warn', data)\<close>
    and its \<open>'info'\<close> twin;
  \<^item> \<open>Error_to_warn parent child\<close>: the \<open>'error'\<close> listener of \<open>bind_child_to_parent\<close>;
  \<^item> \<open>On_child_close parent\<close>: the \<open>'close'\<close> listener installed when \<open>!weak\<close>;
  \<^item> \<open>Wrapper_error w\<close>: \<open>() => this.close()\<close> of \<open>ComponentWrapper\<close>;
  \<^item> \<open>Link c ev\<close>: \<open>(...args) => this.emit(event, ...args)\<close> of \<open>link_event\<close>;
  \<^item> \<open>User k thr\<close>: a listener of the caller. It records that it ran (with its argument)
    and then returns, or throws \<open>v\<close> when \<open>thr = Some v\<close>.
\<close>

datatype handler =
    Set_failed oid
  | On_parent_close oid
  | Relay_warn oid
  | Relay_info oid
  | Error_to_warn oid oid
  | On_child_close oid
  | Wrapper_error oid
  | Link oid event
  | User nat "val option"

text \<open>
  Every call of \<open>on\<close> creates a new function object in the source; a listener is
  therefore a handler together with the identity it got when it was registered.
\<close>

type_synonym listener = "nat \<times> event \<times> handler"

section \<open>Promises\<close>

text \<open>
  The promise behind \<open>ready_res\<close>/\<open>ready_rej\<close> settles at most once. \<open>ready_promise\<close> is
  this promise followed by a \<open>then\<close> that sets \<open>ready = true\<close>; it settles the same way once
  the promise job has run. The model keeps the state of the promise as it is when no
  promise job is waiting, and says nothing of the order in which promise jobs run.
\<close>

datatype promise = Pending | Fulfilled | Rejected val

text \<open>What can be said of a \<open>Promise.all\<close> without that order: it has failed once one of its
  inputs has, it is ready once all are, and it is waiting otherwise.\<close>

datatype aggregate = Waiting | Ready | Failed

fun aggregate_of :: "promise \<Rightarrow> aggregate" where
  "aggregate_of Pending = Waiting"
| "aggregate_of Fulfilled = Ready"
| "aggregate_of (Rejected e) = Failed"

definition all_of :: "aggregate list \<Rightarrow> aggregate" where
  "all_of xs =
     (if Failed \<in> set xs then Failed
      else if \<forall>x \<in> set xs. x = Ready then Ready
      else Waiting)"

section \<open>Objects and the heap\<close>

text \<open>
  The private state of a component (the variables closed over by the constructor) and
  its \<open>$component\<close> record. \<open>components\<close> is the JavaScript \<open>Set\<close> of subcomponents (insertion
  ordered, no duplicates); \<open>events\<close> is the \<open>EventManager\<close> of the component: the
  subscriptions it made, as (target, listener) pairs; \<open>close_async\<close> says whether the
  object has a \<open>close_async\<close> method.
\<close>

record component =
  name :: string
  ctor_name :: string
  components :: "oid list"
  ready_promise :: promise
  closed :: bool
  bound :: bool
  parent :: "oid option"
  target :: oid
  events :: "(oid \<times> nat) list"
  close_async :: bool

text \<open>
  Every object is an event emitter: it has its listeners, in registration order. A
  component has \<open>$component\<close> data; any other emitter has none, and may or may not have a
  \<open>close\<close> method of its own (\<open>close_method = Some thr\<close>: it has one, which throws \<open>e\<close> when
  \<open>thr = Some e\<close>; \<open>close_calls\<close> counts its invocations).
\<close>

record obj =
  listeners :: "listener list"
  data :: "component option"
  close_method :: "val option option"
  close_calls :: nat

record state =
  heap :: "oid \<Rightarrow> obj option"
  next_oid :: nat
  next_lid :: nat
  trace :: "(oid \<times> event \<times> val) list"
  calls :: "(nat \<times> val) list"
  console :: "exn list"
  pending_close :: "oid list"
  unhandled :: "exn list"

definition upd_obj :: "oid \<Rightarrow> (obj \<Rightarrow> obj) \<Rightarrow> state \<Rightarrow> state" where
  "upd_obj a f s = s\<lparr>heap := (heap s)(a := map_option f (heap s a))\<rparr>"

definition upd_data :: "oid \<Rightarrow> (component \<Rightarrow> component) \<Rightarrow> state \<Rightarrow> state" where
  "upd_data a f s = upd_obj a (\<lambda>ob. ob\<lparr>data := map_option f (data ob)\<rparr>) s"

definition get_data :: "state \<Rightarrow> oid \<Rightarrow> component option" where
  "get_data s a = (case heap s a of None \<Rightarrow> None | Some ob \<Rightarrow> data ob)"

definition listeners_of :: "state \<Rightarrow> oid \<Rightarrow> listener list" where
  "listeners_of s a = (case heap s a of None \<Rightarrow> [] | Some ob \<Rightarrow> listeners ob)"

definition is_closed :: "state \<Rightarrow> oid \<Rightarrow> bool" where
  "is_closed s a = (case get_data s a of None \<Rightarrow> False | Some d \<Rightarrow> closed d)"

definition children :: "state \<Rightarrow> oid \<Rightarrow> oid list" where
  "children s a = (case get_data s a of None \<Rightarrow> [] | Some d \<Rightarrow> components d)"

definition readiness :: "state \<Rightarrow> oid \<Rightarrow> promise" where
  "readiness s a = (case get_data s a of None \<Rightarrow> Pending | Some d \<Rightarrow> ready_promise d)"

section \<open>The event emitter and the subscription registry\<close>

text \<open>
  Modelled from the spec: the \<open>eventemitter\<close> and \<open>event-manager\<close> packages are not part
  of the repository. The spec gives their contract: \<open>on(event, handler)\<close>,
  \<open>emit(event, ...args)\<close>, \<open>removeAllListeners()\<close>; \<open>subscribe(target, event, handler)\<close>
  and \<open>unsubscribeAll()\<close>, which record (target, event, handler) triples so they can all
  be removed together; events fire synchronously and in listener-registration order.
\<close>

definition on :: "oid \<Rightarrow> event \<Rightarrow> handler \<Rightarrow> state \<Rightarrow> nat \<times> state" where
  "on a ev h s =
     (next_lid s,
      upd_obj a (\<lambda>ob. ob\<lparr>listeners := listeners ob @ [(next_lid s, ev, h)]\<rparr>)
        (s\<lparr>next_lid := Suc (next_lid s)\<rparr>))"

definition remove_listener :: "oid \<Rightarrow> nat \<Rightarrow> state \<Rightarrow> state" where
  "remove_listener a l s =
     upd_obj a (\<lambda>ob. ob\<lparr>listeners := filter (\<lambda>x. fst x \<noteq> l) (listeners ob)\<rparr>) s"

definition removeAllListeners :: "oid \<Rightarrow> state \<Rightarrow> state" where
  "removeAllListeners a s = upd_obj a (\<lambda>ob. ob\<lparr>listeners := []\<rparr>) s"

definition subscribe :: "oid \<Rightarrow> oid \<Rightarrow> event \<Rightarrow> handler \<Rightarrow> state \<Rightarrow> state" where
  "subscribe owner tgt ev h s =
     (let (l, s1) = on tgt ev h s
      in upd_data owner (\<lambda>d. d\<lparr>events := events d @ [(tgt, l)]\<rparr>) s1)"

definition unsubscribe_all :: "oid \<Rightarrow> state \<Rightarrow> state" where
  "unsubscribe_all owner s =
     (case get_data s owner of
        None \<Rightarrow> s
      | Some d \<Rightarrow>
          upd_data owner (\<lambda>d. d\<lparr>events := []\<rparr>)
            (fold (\<lambda>(tgt, l). remove_listener tgt l) (events d) s))"

definition handlers_for :: "event \<Rightarrow> listener list \<Rightarrow> handler list" where
  "handlers_for ev ls = map (\<lambda>x. snd (snd x)) (filter (\<lambda>x. fst (snd x) = ev) ls)"

section \<open>The component\<close>

subsection \<open>Readiness\<close>

text \<open>\<open>ready_res()\<close> and \<open>ready_rej(err)\<close>: a promise that has settled stays as it is.\<close>

definition settle :: "oid \<Rightarrow> promise \<Rightarrow> state \<Rightarrow> state" where
  "settle c p s =
     (if readiness s c = Pending then upd_data c (\<lambda>d. d\<lparr>ready_promise := p\<rparr>) s else s)"

definition set_ready :: "oid \<Rightarrow> state \<Rightarrow> state" where
  "set_ready c s = settle c Fulfilled s"

definition ready_rej :: "oid \<Rightarrow> val \<Rightarrow> state \<Rightarrow> state" where
  "ready_rej c err s = settle c (Rejected err) s"

subsection \<open>Construction\<close>

text \<open>\<open>new Component(name, is_ready)\<close>; \<open>hook\<close> says whether the (sub)class defines
  \<open>close_async\<close>.\<close>

definition new_Component :: "string \<Rightarrow> bool \<Rightarrow> bool \<Rightarrow> state \<Rightarrow> oid \<times> state" where
  "new_Component nm is_ready hook s =
     (let this = next_oid s;
          d = \<lparr>name = nm, ctor_name = nm, components = [], ready_promise = Pending,
               closed = False, bound = False, parent = None, target = this,
               events = [], close_async = hook\<rparr>;
          ob = \<lparr>listeners = [], data = Some d, close_method = None, close_calls = 0\<rparr>;
          s1 = s\<lparr>heap := (heap s)(this \<mapsto> ob), next_oid := Suc this\<rparr>;
          s2 = snd (on this Error (Set_failed this) s1)
      in (this, if is_ready then set_ready this s2 else s2))"

text \<open>An emitter that is not a component (\<open>new EventEmitter()\<close>, or any object with
  \<open>on\<close>/\<open>emit\<close>), with or without a \<open>close\<close> method.\<close>

definition new_Emitter :: "val option option \<Rightarrow> state \<Rightarrow> oid \<times> state" where
  "new_Emitter cm s =
     (let this = next_oid s;
          ob = \<lparr>listeners = [], data = None, close_method = cm, close_calls = 0\<rparr>
      in (this, s\<lparr>heap := (heap s)(this \<mapsto> ob), next_oid := Suc this\<rparr>))"

subsection \<open>Binding\<close>

definition has_close :: "state \<Rightarrow> oid \<Rightarrow> bool" where
  "has_close s a =
     (case heap s a of None \<Rightarrow> False | Some ob \<Rightarrow> data ob \<noteq> None \<or> close_method ob \<noteq> None)"

definition has_on :: "state \<Rightarrow> oid \<Rightarrow> bool" where
  "has_on s a = (get_data s a \<noteq> None)"

definition bind_child_to_parent :: "oid \<Rightarrow> oid \<Rightarrow> bool \<Rightarrow> state \<Rightarrow> state" where
  "bind_child_to_parent child par weak s =
     (let s1 = (if has_close s child
                then (if has_on s child
                      then subscribe child par Close (On_parent_close child) s
                      else snd (on par Close (On_parent_close child) s))
                else s);
          s2 = subscribe par child Warn (Relay_warn par) s1;
          s3 = subscribe par child Info (Relay_info par) s2;
          s4 = subscribe par child Error (Error_to_warn par child) s3
      in if \<not> weak then subscribe par child Close (On_child_close par) s4 else s4)"

definition new_ComponentWrapper :: "oid \<Rightarrow> string \<Rightarrow> state \<Rightarrow> oid \<times> state" where
  "new_ComponentWrapper ob nm s =
     (let (this, s1) = new_Component nm True False s;
          s2 = bind_child_to_parent ob this False s1;
          s3 = subscribe this ob Error (Wrapper_error this) s2
      in (this, upd_data this (\<lambda>d. d\<lparr>target := ob\<rparr>) s3))"

text \<open>Lines 59 to 65 of \<open>bind\<close>: the part after the null check and the wrapper check.\<close>

definition bind_component :: "oid \<Rightarrow> oid \<Rightarrow> bool \<Rightarrow> state \<Rightarrow> outcome \<times> state" where
  "bind_component this sub weak s =
     (case (get_data s this, get_data s sub) of
        (Some td, Some d) \<Rightarrow>
          if bound d then (Thrown (DoubleBound (name d) (ctor_name td)), s)
          else
            let s1 = upd_data this (\<lambda>t. t\<lparr>components :=
                       (if sub \<in> set (components t) then components t
                        else components t @ [sub])\<rparr>) s;
                s2 = upd_data sub (\<lambda>c. c\<lparr>bound := True, parent := Some this\<rparr>) s1
            in (Ok, bind_child_to_parent sub this weak s2)
      | _ \<Rightarrow> (Thrown TypeError, s))"

text \<open>\<open>bind(sub, weak)\<close>; \<open>sub = None\<close> is \<open>null\<close>/\<open>undefined\<close>. For an object without
  \<open>$component\<close> the source calls itself on a new wrapper, without passing \<open>weak\<close>; the
  wrapper passes the first two checks of that second call, which goes on at line 59.\<close>

definition bind :: "oid \<Rightarrow> oid option \<Rightarrow> bool \<Rightarrow> state \<Rightarrow> outcome \<times> state" where
  "bind this sub weak s =
     (case get_data s this of
        None \<Rightarrow> (Thrown TypeError, s)
      | Some td \<Rightarrow>
         (case sub of
            None \<Rightarrow> (Thrown NullParameter, s)
          | Some c \<Rightarrow>
             (case heap s c of
                None \<Rightarrow> (Thrown TypeError, s)
              | Some ob \<Rightarrow>
                 (case data ob of
                    None \<Rightarrow>
                      (let (w, s1) = new_ComponentWrapper c ''Wrapper'' s
                       in bind_component this w False s1)
                  | Some d \<Rightarrow> bind_component this c weak s))))"

definition unbind :: "oid \<Rightarrow> oid option \<Rightarrow> state \<Rightarrow> outcome \<times> state" where
  "unbind this sub s =
     (case get_data s this of
        None \<Rightarrow> (Thrown TypeError, s)
      | Some td \<Rightarrow>
         (case sub of
            None \<Rightarrow> (Thrown NullParameter, s)
          | Some c \<Rightarrow>
             if c \<notin> set (components td) then (Thrown NotBound, s)
             else
               let s1 = upd_data this (\<lambda>t. t\<lparr>components := removeAll c (components t)\<rparr>) s
               in (case get_data s1 c of
                     None \<Rightarrow> (Thrown TypeError, s1)
                   | Some d \<Rightarrow> (Ok, upd_data c (\<lambda>d. d\<lparr>bound := False, parent := None\<rparr>) s1))))"

text \<open>\<open>link_event(event, recurse)\<close>: every child gets a listener that emits the event again
  on \<open>this\<close>. With \<open>recurse\<close> the child does the same for its own children, and no further:
  the inner call passes no second argument. (The model has the four events of the
  lifecycle protocol; the source takes any event name.)\<close>

definition link_children :: "oid \<Rightarrow> event \<Rightarrow> state \<Rightarrow> state" where
  "link_children this ev s =
     fold (\<lambda>k. subscribe this k ev (Link this ev)) (children s this) s"

definition link_event :: "oid \<Rightarrow> event \<Rightarrow> bool \<Rightarrow> state \<Rightarrow> state" where
  "link_event this ev recurse s =
     fold (\<lambda>k s1. let s2 = subscribe this k ev (Link this ev) s1
                  in if recurse then link_children k ev s2 else s2)
       (children s this) s"

subsection \<open>Diagnostics\<close>

fun put :: "string \<Rightarrow> val \<Rightarrow> (string \<times> val) list \<Rightarrow> (string \<times> val) list" where
  "put k v [] = [(k, v)]"
| "put k v ((k', v') # kvs) = (if k = k' then (k, v) # kvs else (k', v') # put k v kvs)"

text \<open>\<open>_.assign(target, source)\<close> on the own properties of two plain objects. Of a source
  that is no plain object nothing is copied (the own enumerable properties of a heap
  object are not part of the model).\<close>

fun assign :: "(string \<times> val) list \<Rightarrow> (string \<times> val) list \<Rightarrow> (string \<times> val) list" where
  "assign tgt [] = tgt"
| "assign tgt ((k, v) # src) = assign (put k v tgt) src"

fun objectify :: "val \<Rightarrow> (string \<times> val) list" where
  "objectify (Str x) = [(''message'', Str x)]"
| "objectify (Obj kvs) = kvs"
| "objectify _ = []"

definition warn_payload :: "oid \<Rightarrow> val \<Rightarrow> val" where
  "warn_payload this d =
     Obj (assign [(''type'', Str ''warn''), (''source'', Ref this)] (objectify d))"

definition info_payload :: "oid \<Rightarrow> val \<Rightarrow> val" where
  "info_payload this d =
     Obj (assign [(''type'', Str ''info''), (''source'', Ref this)] (objectify d))"

definition subcomponent_error :: "oid \<Rightarrow> val \<Rightarrow> val" where
  "subcomponent_error child err =
     Obj [(''type'', Str ''subcomponent-error''), (''origin'', Ref child), (''error'', err)]"

subsection \<open>Emitting and closing\<close>

text \<open>\<open>try { ... } catch (err) { console.error(..., err) }\<close>\<close>

definition console_error :: "outcome \<Rightarrow> state \<Rightarrow> state" where
  "console_error r s = (case r of Ok \<Rightarrow> s | Thrown e \<Rightarrow> s\<lparr>console := console s @ [e]\<rparr>)"

definition catch_log :: "(outcome \<times> state) option \<Rightarrow> (outcome \<times> state) option" where
  "catch_log r = (case r of None \<Rightarrow> None | Some (x, s) \<Rightarrow> Some (Ok, console_error x s))"

text \<open>The \<open>close\<close> method of an emitter that is not a component: all the model knows of
  it is that it was called, and whether it throws.\<close>

definition foreign_close :: "oid \<Rightarrow> state \<Rightarrow> outcome \<times> state" where
  "foreign_close a s =
     (case heap s a of
        None \<Rightarrow> (Thrown TypeError, s)
      | Some ob \<Rightarrow>
         (case close_method ob of
            None \<Rightarrow> (Thrown TypeError, s)
          | Some thr \<Rightarrow>
             ((case thr of None \<Rightarrow> Ok | Some e \<Rightarrow> Thrown (UserThrown e)),
              upd_obj a (\<lambda>ob. ob\<lparr>close_calls := Suc (close_calls ob)\<rparr>) s)))"

text \<open>The \<open>finally\<close> block of \<open>do_close\<close>: unbind from the parent, then drop the listeners
  and the subscriptions. An exception of \<open>unbind\<close> leaves the block at once.\<close>

definition cleanup :: "oid \<Rightarrow> state \<Rightarrow> outcome \<times> state" where
  "cleanup c s =
     (case get_data s c of
        None \<Rightarrow> (Thrown TypeError, s)
      | Some d \<Rightarrow>
         (case (case parent d of None \<Rightarrow> (Ok, s) | Some p \<Rightarrow> unbind p (Some c) s) of
            (Thrown e, s1) \<Rightarrow> (Thrown e, s1)
          | (Ok, s1) \<Rightarrow> (Ok, unsubscribe_all c (removeAllListeners c s1))))"

text \<open>\<open>try { r } finally { f }\<close>: the exception of the \<open>finally\<close> block wins; otherwise the
  outcome of the \<open>try\<close> block stands.\<close>

definition try_finally :: "outcome \<Rightarrow> outcome \<times> state \<Rightarrow> outcome \<times> state" where
  "try_finally r f = (case f of (Thrown e, s) \<Rightarrow> (Thrown e, s) | (Ok, s) \<Rightarrow> (r, s))"

definition mark_closed :: "oid \<Rightarrow> state \<Rightarrow> state" where
  "mark_closed c s = upd_data c (\<lambda>d. d\<lparr>closed := True\<rparr>) s"

definition log_emit :: "oid \<Rightarrow> event \<Rightarrow> val \<Rightarrow> state \<Rightarrow> state" where
  "log_emit a ev v s = s\<lparr>trace := trace s @ [(a, ev, v)]\<rparr>"

text \<open>
  Emitting runs listeners, listeners close components, and closing emits: the functions
  \<open>emit\<close>, \<open>close\<close>, \<open>do_close\<close>, \<open>set_failed\<close> and the invocation of a listener are
  mutually recursive. Bindings can form a cycle (\<open>a.bind(b); b.bind(a)\<close> is accepted),
  and then a relayed event goes round for ever; every call therefore spends one unit of
  fuel, and \<open>None\<close> says that the fuel ran out. The mutual recursion is one function
  \<open>run\<close> over the call to make; the functions of the source are its instances, with
  their equations derived below.
\<close>

datatype invocation =
    EMIT oid event val
  | DISPATCH "handler list" val
  | CALL handler val
  | CLOSE oid
  | DO_CLOSE oid
  | SET_FAILED oid val

primrec run :: "nat \<Rightarrow> invocation \<Rightarrow> state \<Rightarrow> (outcome \<times> state) option" where
  "run 0 i s = (case i of DISPATCH [] v \<Rightarrow> Some (Ok, s) | _ \<Rightarrow> None)"
| "run (Suc n) i s =
     (case i of
        EMIT a ev v \<Rightarrow>
          (case heap s a of
             None \<Rightarrow> Some (Thrown TypeError, s)
           | Some ob \<Rightarrow> run n (DISPATCH (handlers_for ev (listeners ob)) v) (log_emit a ev v s))
      | DISPATCH hs v \<Rightarrow>
          (case hs of
             [] \<Rightarrow> Some (Ok, s)
           | h # hs' \<Rightarrow>
              (case run n (CALL h v) s of
                 None \<Rightarrow> None
               | Some (Thrown e, s1) \<Rightarrow> Some (Thrown e, s1)
               | Some (Ok, s1) \<Rightarrow> run n (DISPATCH hs' v) s1))
      | CALL h v \<Rightarrow>
          (case h of
             Set_failed c \<Rightarrow> run n (SET_FAILED c v) s
           | On_parent_close child \<Rightarrow>
               if has_on s child then catch_log (run n (CLOSE child) s)
               else catch_log (Some (foreign_close child s))
           | Relay_warn p \<Rightarrow> run n (EMIT p Warn v) s
           | Relay_info p \<Rightarrow> run n (EMIT p Info v) s
           | Error_to_warn p child \<Rightarrow>
               run n (EMIT p Warn (warn_payload p (subcomponent_error child v))) s
           | On_child_close p \<Rightarrow> catch_log (run n (CLOSE p) s)
           | Wrapper_error w \<Rightarrow> run n (CLOSE w) s
           | Link p ev \<Rightarrow> run n (EMIT p ev v) s
           | User k thr \<Rightarrow>
               Some ((case thr of None \<Rightarrow> Ok | Some e \<Rightarrow> Thrown (UserThrown e)),
                     s\<lparr>calls := calls s @ [(k, v)]\<rparr>))
      | CLOSE c \<Rightarrow>
          (case get_data s c of
             None \<Rightarrow> Some (Thrown TypeError, s)
           | Some d \<Rightarrow>
               if closed d then Some (Ok, s)
               else if close_async d
               then Some (Ok, (mark_closed c s)\<lparr>pending_close := pending_close s @ [c]\<rparr>)
               else run n (DO_CLOSE c) (mark_closed c s))
      | DO_CLOSE c \<Rightarrow>
          (case run n (EMIT c Close Undefined) s of
             None \<Rightarrow> None
           | Some (r, s1) \<Rightarrow> Some (try_finally r (cleanup c s1)))
      | SET_FAILED c err \<Rightarrow> run n (CLOSE c) (ready_rej c err s))"

text \<open>\<open>emit(event, arg)\<close>: the listeners registered for the event when \<open>emit\<close> starts are
  called in registration order; an exception of a listener leaves \<open>emit\<close>.\<close>

definition emit :: "nat \<Rightarrow> oid \<Rightarrow> event \<Rightarrow> val \<Rightarrow> state \<Rightarrow> (outcome \<times> state) option" where
  "emit n a ev v s = run n (EMIT a ev v) s"

definition dispatch :: "nat \<Rightarrow> handler list \<Rightarrow> val \<Rightarrow> state \<Rightarrow> (outcome \<times> state) option" where
  "dispatch n hs v s = run n (DISPATCH hs v) s"

definition call :: "nat \<Rightarrow> handler \<Rightarrow> val \<Rightarrow> state \<Rightarrow> (outcome \<times> state) option" where
  "call n h v s = run n (CALL h v) s"

definition close :: "nat \<Rightarrow> oid \<Rightarrow> state \<Rightarrow> (outcome \<times> state) option" where
  "close n c s = run n (CLOSE c) s"

definition do_close :: "nat \<Rightarrow> oid \<Rightarrow> state \<Rightarrow> (outcome \<times> state) option" where
  "do_close n c s = run n (DO_CLOSE c) s"

definition set_failed :: "nat \<Rightarrow> oid \<Rightarrow> val \<Rightarrow> state \<Rightarrow> (outcome \<times> state) option" where
  "set_failed n c err s = run n (SET_FAILED c err) s"

text \<open>\<open>warn(data)\<close> and \<open>info(data)\<close> of a component.\<close>

definition warn :: "nat \<Rightarrow> oid \<Rightarrow> val \<Rightarrow> state \<Rightarrow> (outcome \<times> state) option" where
  "warn n this d s = emit n this Warn (warn_payload this d) s"

definition info :: "nat \<Rightarrow> oid \<Rightarrow> val \<Rightarrow> state \<Rightarrow> (outcome \<times> state) option" where
  "info n this d s = emit n this Info (info_payload this d) s"

text \<open>
  The asynchronous branch of \<open>close\<close>:
  \<open>this.close_async().catch(err => this.emit('error', err)).then(do_close)\<close>. The promise
  of the hook settles later, from outside: \<open>failure = None\<close> when it is fulfilled,
  \<open>Some err\<close> when it is rejected. An exception inside a promise callback rejects the
  derived promise, which nobody handles; when it comes from the \<open>catch\<close> callback,
  \<open>do_close\<close> is skipped.
\<close>

definition unhandled_rejection :: "(outcome \<times> state) option \<Rightarrow> (outcome \<times> state) option" where
  "unhandled_rejection r =
     (case r of
        None \<Rightarrow> None
      | Some (Ok, s) \<Rightarrow> Some (Ok, s)
      | Some (Thrown e, s) \<Rightarrow> Some (Ok, s\<lparr>unhandled := unhandled s @ [e]\<rparr>))"

definition close_async_settled ::
  "nat \<Rightarrow> oid \<Rightarrow> val option \<Rightarrow> state \<Rightarrow> (outcome \<times> state) option" where
  "close_async_settled n c failure s =
     (if c \<notin> set (pending_close s) then Some (Ok, s)
      else
        let s0 = s\<lparr>pending_close := remove1 c (pending_close s)\<rparr>
        in (case failure of
              None \<Rightarrow> unhandled_rejection (do_close n c s0)
            | Some err \<Rightarrow>
               (case emit n c Error err s0 of
                  None \<Rightarrow> None
                | Some (Thrown e, s1) \<Rightarrow> Some (Ok, s1\<lparr>unhandled := unhandled s1 @ [e]\<rparr>)
                | Some (Ok, s1) \<Rightarrow> unhandled_rejection (do_close n c s1))))"

subsection \<open>Waiting for readiness\<close>

text \<open>The future that \<open>wait_for_ready()\<close> returns:
  \<open>Promise.all([ready_promise, ...children.map(c => c.wait_for_ready())])\<close>, with the
  children of the moment of the call. The recursion follows the bindings, so it too
  takes fuel.\<close>

datatype future = All oid "future list"

fun collect :: "(exn + future) option list \<Rightarrow> (exn + future list) option" where
  "collect [] = Some (Inr [])"
| "collect (None # rs) = None"
| "collect (Some (Inl e) # rs) = Some (Inl e)"
| "collect (Some (Inr f) # rs) =
     (case collect rs of
        None \<Rightarrow> None
      | Some (Inl e) \<Rightarrow> Some (Inl e)
      | Some (Inr fs) \<Rightarrow> Some (Inr (f # fs)))"

primrec wait_for_ready :: "nat \<Rightarrow> state \<Rightarrow> oid \<Rightarrow> (exn + future) option" where
  "wait_for_ready 0 s c = None"
| "wait_for_ready (Suc n) s c =
     (case get_data s c of
        None \<Rightarrow> Some (Inl TypeError)
      | Some d \<Rightarrow>
         (case collect (map (wait_for_ready n s) (components d)) of
            None \<Rightarrow> None
          | Some (Inl e) \<Rightarrow> Some (Inl e)
          | Some (Inr fs) \<Rightarrow> Some (Inr (All c fs))))"

fun settled :: "state \<Rightarrow> future \<Rightarrow> aggregate" where
  "settled s (All c fs) = all_of (aggregate_of (readiness s c) # map (settled s) fs)"

fun members :: "future \<Rightarrow> oid list" where
  "members (All c fs) = c # concat (map members fs)"

text \<open>The state before anything was created.\<close>

definition init :: state where
  "init = \<lparr>heap = (\<lambda>a. None), next_oid = 0, next_lid = 0, trace = [],
           calls = [], console = [], pending_close = [], unhandled = []\<rparr>"

section \<open>Observations and scenarios\<close>

text \<open>The three errors that the source throws itself, as opposed to what the runtime or a
  listener throws.\<close>

definition contract_violation :: "outcome \<Rightarrow> bool" where
  "contract_violation r =
     (case r of
        Thrown NullParameter \<Rightarrow> True
      | Thrown (DoubleBound c p) \<Rightarrow> True
      | Thrown NotBound \<Rightarrow> True
      | _ \<Rightarrow> False)"

text \<open>The data of a component without its subscription ledger.\<close>

definition core :: "state \<Rightarrow> oid \<Rightarrow> component option" where
  "core s a = map_option (\<lambda>d. d\<lparr>events := []\<rparr>) (get_data s a)"

definition is_component :: "state \<Rightarrow> oid \<Rightarrow> bool" where
  "is_component s a = (get_data s a \<noteq> None)"

definition parent_of :: "state \<Rightarrow> oid \<Rightarrow> oid option" where
  "parent_of s a = (case get_data s a of None \<Rightarrow> None | Some d \<Rightarrow> parent d)"

definition has_hook :: "state \<Rightarrow> oid \<Rightarrow> bool" where
  "has_hook s a = (case get_data s a of None \<Rightarrow> False | Some d \<Rightarrow> close_async d)"

definition subscriptions :: "state \<Rightarrow> oid \<Rightarrow> (oid \<times> nat) list" where
  "subscriptions s a = (case get_data s a of None \<Rightarrow> [] | Some d \<Rightarrow> events d)"

text \<open>How often \<open>ev\<close> was emitted on \<open>a\<close> so far.\<close>

definition emissions :: "state \<Rightarrow> oid \<Rightarrow> event \<Rightarrow> nat" where
  "emissions s a ev = length (filter (\<lambda>x. fst x = a \<and> fst (snd x) = ev) (trace s))"

text \<open>
  The calls of \<open>run\<close> as a relation between the call, the state before, the outcome and
  the state after, one rule per path through the functions of the source. It holds of
  every call that returns (\<open>run_exec\<close> below) and gives the induction principle for them.
\<close>

inductive exec :: "invocation \<Rightarrow> state \<Rightarrow> outcome \<Rightarrow> state \<Rightarrow> bool" where
  dispatch_nil: "exec (DISPATCH [] v) s Ok s"
| emit_nothing: "heap s a = None \<Longrightarrow> exec (EMIT a ev v) s (Thrown TypeError) s"
| emit_listeners:
    "heap s a = Some ob \<Longrightarrow>
     exec (DISPATCH (handlers_for ev (listeners ob)) v) (log_emit a ev v s) r s' \<Longrightarrow>
     exec (EMIT a ev v) s r s'"
| dispatch_thrown:
    "exec (CALL h v) s (Thrown e) s1 \<Longrightarrow> exec (DISPATCH (h # hs) v) s (Thrown e) s1"
| dispatch_next:
    "exec (CALL h v) s Ok s1 \<Longrightarrow> exec (DISPATCH hs v) s1 r s' \<Longrightarrow>
     exec (DISPATCH (h # hs) v) s r s'"
| call_set_failed:
    "exec (SET_FAILED c v) s r s' \<Longrightarrow> exec (CALL (Set_failed c) v) s r s'"
| call_parent_close:
    "has_on s child \<Longrightarrow> exec (CLOSE child) s r s' \<Longrightarrow>
     exec (CALL (On_parent_close child) v) s Ok (console_error r s')"
| call_parent_close_foreign:
    "\<not> has_on s child \<Longrightarrow> foreign_close child s = (r, s') \<Longrightarrow>
     exec (CALL (On_parent_close child) v) s Ok (console_error r s')"
| call_relay_warn:
    "exec (EMIT p Warn v) s r s' \<Longrightarrow> exec (CALL (Relay_warn p) v) s r s'"
| call_relay_info:
    "exec (EMIT p Info v) s r s' \<Longrightarrow> exec (CALL (Relay_info p) v) s r s'"
| call_error_to_warn:
    "exec (EMIT p Warn (warn_payload p (subcomponent_error child v))) s r s' \<Longrightarrow>
     exec (CALL (Error_to_warn p child) v) s r s'"
| call_child_close:
    "exec (CLOSE p) s r s' \<Longrightarrow> exec (CALL (On_child_close p) v) s Ok (console_error r s')"
| call_wrapper_error:
    "exec (CLOSE w) s r s' \<Longrightarrow> exec (CALL (Wrapper_error w) v) s r s'"
| call_link:
    "exec (EMIT p ev v) s r s' \<Longrightarrow> exec (CALL (Link p ev) v) s r s'"
| call_user:
    "exec (CALL (User k thr) v) s
       (case thr of None \<Rightarrow> Ok | Some e \<Rightarrow> Thrown (UserThrown e))
       (s\<lparr>calls := calls s @ [(k, v)]\<rparr>)"
| close_nothing: "get_data s c = None \<Longrightarrow> exec (CLOSE c) s (Thrown TypeError) s"
| close_closed: "get_data s c = Some d \<Longrightarrow> closed d \<Longrightarrow> exec (CLOSE c) s Ok s"
| close_async:
    "get_data s c = Some d \<Longrightarrow> \<not> closed d \<Longrightarrow> close_async d \<Longrightarrow>
     exec (CLOSE c) s Ok ((mark_closed c s)\<lparr>pending_close := pending_close s @ [c]\<rparr>)"
| close_sync:
    "get_data s c = Some d \<Longrightarrow> \<not> closed d \<Longrightarrow> \<not> close_async d \<Longrightarrow>
     exec (DO_CLOSE c) (mark_closed c s) r s' \<Longrightarrow> exec (CLOSE c) s r s'"
| do_close:
    "exec (EMIT c Close Undefined) s r1 s1 \<Longrightarrow> try_finally r1 (cleanup c s1) = (r, s') \<Longrightarrow>
     exec (DO_CLOSE c) s r s'"
| set_failed:
    "exec (CLOSE c) (ready_rej c err s) r s' \<Longrightarrow> exec (SET_FAILED c err) s r s'"

definition outcome_of :: "(outcome \<times> state) option \<Rightarrow> outcome option" where
  "outcome_of r = map_option fst r"

definition state_of :: "(outcome \<times> state) option \<Rightarrow> state" where
  "state_of r = (case r of None \<Rightarrow> init | Some (x, s) \<Rightarrow> s)"

text \<open>Three components \<open>P = 0\<close>, \<open>Q = 1\<close>, \<open>S = 2\<close>, created ready; \<open>S\<close> is bound to \<open>P\<close>.\<close>

definition two_parents :: state where
  "two_parents =
     (let (p, s) = new_Component ''P'' True False init;
          (q, s) = new_Component ''Q'' True False s;
          (c, s) = new_Component ''S'' True False s
      in snd (bind p (Some c) False s))"

text \<open>What every returning call leaves as it is, or changes in one direction only: no
  object appears or goes, a component stays one and keeps its hook, a closed component
  stays closed, a settled readiness stays, child sets and listener lists only shrink.\<close>

definition evolves :: "state \<Rightarrow> state \<Rightarrow> bool" where
  "evolves s s' \<longleftrightarrow>
     (\<forall>a. (heap s' a = None \<longleftrightarrow> heap s a = None)
        \<and> is_component s' a = is_component s a
        \<and> (is_closed s a \<longrightarrow> is_closed s' a)
        \<and> has_hook s' a = has_hook s a
        \<and> (readiness s a \<noteq> Pending \<longrightarrow> readiness s' a = readiness s a)
        \<and> set (children s' a) \<subseteq> set (children s a)
        \<and> set (listeners_of s' a) \<subseteq> set (listeners_of s a))"

fun safe :: "handler \<Rightarrow> bool" where
  "safe (On_parent_close k) = True"
| "safe (On_child_close k) = True"
| "safe (User k None) = True"
| "safe _ = False"

definition same_link :: "oid \<Rightarrow> state \<Rightarrow> state \<Rightarrow> bool" where
  "same_link c s s' \<longleftrightarrow>
     parent_of s' c = parent_of s c \<and> subscriptions s' c = subscriptions s c
     \<and> (\<forall>p. (c \<in> set (children s' p)) = (c \<in> set (children s p)))"

definition throwing_child :: state where
  "throwing_child =
     (let (p, s) = new_Component ''P'' True False init;
          (c, s) = new_Component ''C'' True False s;
          s = snd (bind p (Some c) True s)
      in snd (on c Close (User 7 (Some (Str ''boom''))) s))"

text \<open>\<open>k\<close> is still recorded as a child of \<open>R\<close> only while its own link to \<open>R\<close> stands.\<close>

definition linked :: "oid \<Rightarrow> oid \<Rightarrow> state \<Rightarrow> bool" where
  "linked k R s \<longleftrightarrow>
     k \<notin> set (children s R)
     \<or> (is_component s k \<and> parent_of s k = Some R \<and> \<not> has_hook s k)"

definition linked_open :: "oid \<Rightarrow> oid \<Rightarrow> state \<Rightarrow> bool" where
  "linked_open k R s \<longleftrightarrow>
     k \<notin> set (children s R)
     \<or> (is_component s k \<and> parent_of s k = Some R \<and> \<not> has_hook s k \<and> \<not> is_closed s k)"

text \<open>While \<open>P\<close> is open, the listener \<open>l\<close> through which \<open>P\<close> closes its child \<open>W\<close> is in place,
  belongs to the registry of \<open>W\<close> alone, and no \<open>'close'\<close> listener of \<open>P\<close> throws; or \<open>W\<close> is
  closed already.\<close>

definition guarded :: "oid \<Rightarrow> oid \<Rightarrow> nat \<Rightarrow> state \<Rightarrow> bool" where
  "guarded P W l s \<longleftrightarrow>
     is_component s W
     \<and> (is_closed s W
        \<or> (\<not> is_closed s P \<and> is_component s P \<and> \<not> has_hook s P
           \<and> (l, Close, On_parent_close W) \<in> set (listeners_of s P)
           \<and> (\<forall>c. c \<noteq> W \<longrightarrow> (P, l) \<notin> set (subscriptions s c))
           \<and> (\<forall>h \<in> set (handlers_for Close (listeners_of s P)). safe h)))"

text \<open>A set \<open>D\<close> of objects that the close cascade cannot leave: every \<open>'close'\<close> listener on
  a member of \<open>D\<close> is a listener of the caller or one of the two cascade listeners of
  \<open>bind_child_to_parent\<close>, made for a member of \<open>D\<close>.\<close>

fun within :: "oid set \<Rightarrow> handler \<Rightarrow> bool" where
  "within D (User k thr) = True"
| "within D (On_parent_close k) = (k \<in> D)"
| "within D (On_child_close k) = (k \<in> D)"
| "within D _ = False"

definition confined :: "oid set \<Rightarrow> state \<Rightarrow> bool" where
  "confined D s \<longleftrightarrow>
     (\<forall>x\<in>D. \<forall>h \<in> set (handlers_for Close (listeners_of s x)). within D h)"

fun inside :: "oid set \<Rightarrow> invocation \<Rightarrow> bool" where
  "inside D (EMIT c ev v) = (ev = Close \<and> c \<in> D)"
| "inside D (DISPATCH hs v) = (\<forall>h\<in>set hs. within D h)"
| "inside D (CALL h v) = within D h"
| "inside D (CLOSE c) = (c \<in> D)"
| "inside D (DO_CLOSE c) = (c \<in> D)"
| "inside D (SET_FAILED c err) = False"

definition quiet :: "oid set \<Rightarrow> state \<Rightarrow> state \<Rightarrow> bool" where
  "quiet D s s' \<longleftrightarrow>
     (\<forall>x. is_closed s' x \<longrightarrow> is_closed s x \<or> x \<in> D) \<and> (\<forall>a. readiness s' a = readiness s a)"

text \<open>The call \<open>f\<close>, given enough fuel, returns outcome \<open>r\<close> and state \<open>s'\<close>: from some amount
  on, every amount of fuel gives this result.\<close>

definition returns :: "(nat \<Rightarrow> (outcome \<times> state) option) \<Rightarrow> outcome \<Rightarrow> state \<Rightarrow> bool" where
  "returns f r s' \<longleftrightarrow> (\<exists>n0. \<forall>n\<ge>n0. f n = Some (r, s'))"

text \<open>The components of \<open>D\<close> that are still open.\<close>

definition open_in :: "oid set \<Rightarrow> state \<Rightarrow> oid set" where
  "open_in D s = {a \<in> D. is_component s a \<and> \<not> is_closed s a}"

text \<open>A parent \<open>P = 0\<close> and its weak child \<open>K = 1\<close>, which has a \<open>close_async\<close> hook and an
  \<open>'error'\<close> listener that throws.\<close>

definition hooked_child :: state where
  "hooked_child =
     (let (p, s) = new_Component ''P'' True False init;
          (k, s) = new_Component ''K'' True True s;
          s = snd (bind p (Some k) True s)
      in snd (on k Error (User 7 (Some (Str ''boom''))) s))"

text \<open>\<open>K.close()\<close>, and then the promise of the hook being rejected.\<close>

definition hooked_closed :: state where
  "hooked_closed = state_of (close 1 1 hooked_child)"

definition hooked_rejected :: state where
  "hooked_rejected = state_of (close_async_settled 9 1 (Some (Str ''no'')) hooked_closed)"

text \<open>A component \<open>C = 0\<close> with a weak child \<open>K = 1\<close>, after \<open>C.$component.link_event('close')\<close>.\<close>

definition relayed :: state where
  "relayed =
     (let (c, s) = new_Component ''C'' True False init;
          (k, s) = new_Component ''K'' True False s;
          s = snd (bind c (Some k) True s)
      in link_event c Close False s)"



section \<open>The equations of the functions of the source\<close>

lemma emit_Suc:
  "emit (Suc n) a ev v s =
     (case heap s a of
        None \<Rightarrow> Some (Thrown TypeError, s)
      | Some ob \<Rightarrow> dispatch n (handlers_for ev (listeners ob)) v (log_emit a ev v s))"
  unfolding emit_def dispatch_def by simp

lemma dispatch_Nil: "dispatch n [] v s = Some (Ok, s)"
  by (cases n) (simp_all add: dispatch_def)

lemma dispatch_Cons:
  "dispatch (Suc n) (h # hs) v s =
     (case call n h v s of
        None \<Rightarrow> None
      | Some (Thrown e, s1) \<Rightarrow> Some (Thrown e, s1)
      | Some (Ok, s1) \<Rightarrow> dispatch n hs v s1)"
  unfolding dispatch_def call_def by simp

lemma close_Suc:
  "close (Suc n) c s =
     (case get_data s c of
        None \<Rightarrow> Some (Thrown TypeError, s)
      | Some d \<Rightarrow>
          if closed d then Some (Ok, s)
          else if close_async d
          then Some (Ok, (mark_closed c s)\<lparr>pending_close := pending_close s @ [c]\<rparr>)
          else do_close n c (mark_closed c s))"
  unfolding close_def do_close_def by simp


lemma set_failed_Suc: "set_failed (Suc n) c err s = close n c (ready_rej c err s)"
  unfolding set_failed_def close_def by simp

lemma run_exec: "run n i s = Some (r, s') \<Longrightarrow> exec i s r s'"
proof (induction n arbitrary: i s r s')
  case 0
  then show ?case
    by (auto split: invocation.splits list.splits intro: exec.dispatch_nil)
next
  case (Suc n)
  show ?case
  proof (cases i)
    case (EMIT a ev v)
    with Suc.prems show ?thesis
      by (auto split: option.splits intro: exec.emit_nothing exec.emit_listeners Suc.IH)
  next
    case (DISPATCH hs v)
    show ?thesis
    proof (cases hs)
      case Nil
      with DISPATCH Suc.prems show ?thesis by (auto intro: exec.dispatch_nil)
    next
      case (Cons h hs')
      with DISPATCH Suc.prems show ?thesis
        by (auto split: option.splits outcome.splits dest!: Suc.IH
            intro: exec.dispatch_thrown exec.dispatch_next)
    qed
  next
    case (CALL h v)
    show ?thesis
    proof (cases h)
      case (On_parent_close child)
      with CALL Suc.prems show ?thesis
        by (cases "foreign_close child s")
          (auto simp: catch_log_def split: option.splits if_splits
            intro: exec.call_parent_close exec.call_parent_close_foreign Suc.IH)
    next
      case (On_child_close p)
      with CALL Suc.prems show ?thesis
        by (auto simp: catch_log_def split: option.splits intro: exec.call_child_close Suc.IH)
    next
      case (User k thr)
      with CALL Suc.prems show ?thesis
        by (auto intro: exec.call_user)
    qed (use CALL Suc.prems in \<open>auto intro: exec.intros Suc.IH\<close>)
  next
    case (CLOSE c)
    with Suc.prems show ?thesis
      by (auto split: option.splits if_splits
          intro: exec.close_nothing exec.close_closed exec.close_async exec.close_sync Suc.IH)
  next
    case (DO_CLOSE c)
    with Suc.prems show ?thesis
      by (auto split: option.splits intro: exec.do_close Suc.IH)
  next
    case (SET_FAILED c err)
    with Suc.prems show ?thesis
      by (auto intro: exec.set_failed Suc.IH)
  qed
qed

section \<open>How the primitive steps act on the component data\<close>

lemma fold_remove_listener:
  "fold (\<lambda>(tgt, l). remove_listener tgt l) xs s =
     s\<lparr>heap := (\<lambda>b. map_option (\<lambda>ob. ob\<lparr>listeners := filter (\<lambda>x. (b, fst x) \<notin> set xs) (listeners ob)\<rparr>) (heap s b))\<rparr>"
proof (induction xs arbitrary: s)
  case Nil
  have "(\<lambda>b. map_option (\<lambda>ob. ob) (heap s b)) = heap s"
    by (simp add: option.map_ident)
  then show ?case by simp
next
  case (Cons x xs)
  obtain t l where x: "x = (t, l)" by (cases x)
  have "(\<lambda>b. map_option (\<lambda>ob. ob\<lparr>listeners := filter (\<lambda>x. (b, fst x) \<notin> set xs) (listeners ob)\<rparr>)
              (if b = t then map_option (\<lambda>ob. ob\<lparr>listeners := filter (\<lambda>x. fst x \<noteq> l) (listeners ob)\<rparr>) (heap s t)
               else heap s b)) =
        (\<lambda>b. map_option (\<lambda>ob. ob\<lparr>listeners := filter (\<lambda>x. (b = t \<longrightarrow> fst x \<noteq> l) \<and> (b, fst x) \<notin> set xs) (listeners ob)\<rparr>)
              (heap s b))"
  proof (rule ext)
    fix b show "map_option (\<lambda>ob. ob\<lparr>listeners := filter (\<lambda>x. (b, fst x) \<notin> set xs) (listeners ob)\<rparr>)
              (if b = t then map_option (\<lambda>ob. ob\<lparr>listeners := filter (\<lambda>x. fst x \<noteq> l) (listeners ob)\<rparr>) (heap s t)
               else heap s b) = map_option (\<lambda>ob. ob\<lparr>listeners := filter (\<lambda>x. (b = t \<longrightarrow> fst x \<noteq> l) \<and> (b, fst x) \<notin> set xs) (listeners ob)\<rparr>)
              (heap s b)"
      by (cases "heap s b") (auto simp: conj_commute)
  qed
  then show ?case
    unfolding x by (simp add: Cons.IH) (simp add: remove_listener_def upd_obj_def)
qed

lemma get_data_state_upd [simp]:
  "get_data (s\<lparr>trace := tr\<rparr>) a = get_data s a"
  "get_data (s\<lparr>calls := cl\<rparr>) a = get_data s a"
  "get_data (s\<lparr>console := co\<rparr>) a = get_data s a"
  "get_data (s\<lparr>pending_close := pc\<rparr>) a = get_data s a"
  "get_data (s\<lparr>unhandled := uh\<rparr>) a = get_data s a"
  "get_data (s\<lparr>next_lid := nl\<rparr>) a = get_data s a"
  by (simp_all add: get_data_def)

lemma get_data_upd_data [simp]:
  "get_data (upd_data a f s) b = (if b = a then map_option f (get_data s a) else get_data s b)"
  by (auto simp: get_data_def upd_data_def upd_obj_def split: option.splits)

lemma get_data_upd_listeners [simp]:
  "get_data (upd_obj a (\<lambda>ob. ob\<lparr>listeners := f ob\<rparr>) s) b = get_data s b"
  "get_data (upd_obj a (\<lambda>ob. ob\<lparr>close_calls := g ob\<rparr>) s) b = get_data s b"
  by (auto simp: get_data_def upd_obj_def split: option.splits)

lemma get_data_on [simp]: "get_data (snd (on a ev h s)) b = get_data s b"
  by (simp add: on_def)

lemma get_data_remove_listener [simp]: "get_data (remove_listener a l s) b = get_data s b"
  by (simp add: remove_listener_def)

lemma get_data_removeAllListeners [simp]: "get_data (removeAllListeners a s) b = get_data s b"
  by (simp add: removeAllListeners_def)

lemma get_data_subscribe [simp]:
  "get_data (subscribe ow tgt ev h s) b =
     (if b = ow then map_option (\<lambda>d. d\<lparr>events := events d @ [(tgt, next_lid s)]\<rparr>) (get_data s ow)
      else get_data s b)"
  by (simp add: subscribe_def split_def) (simp add: on_def)

lemma get_data_fold_remove [simp]:
  "get_data (fold (\<lambda>(tgt, l). remove_listener tgt l) xs s) b = get_data s b"
  by (induction xs arbitrary: s) (auto simp: split_def)

lemma get_data_unsubscribe_all [simp]:
  "get_data (unsubscribe_all ow s) b =
     (if b = ow then map_option (\<lambda>d. d\<lparr>events := []\<rparr>) (get_data s ow) else get_data s b)"
  by (auto simp: unsubscribe_all_def split: option.splits)

lemma get_data_log_emit [simp]: "get_data (log_emit a ev v s) b = get_data s b"
  by (simp add: log_emit_def)

lemma get_data_mark_closed [simp]:
  "get_data (mark_closed c s) b =
     (if b = c then map_option (\<lambda>d. d\<lparr>closed := True\<rparr>) (get_data s c) else get_data s b)"
  by (simp add: mark_closed_def)

lemma get_data_settle [simp]:
  "get_data (settle c p s) b =
     (if b = c \<and> readiness s c = Pending
      then map_option (\<lambda>d. d\<lparr>ready_promise := p\<rparr>) (get_data s c) else get_data s b)"
  by (simp add: settle_def)

lemma get_data_foreign_close [simp]: "get_data (snd (foreign_close a s)) b = get_data s b"
  by (simp add: foreign_close_def split: option.splits)

text \<open>unbind\<close>

lemma get_data_unbind:
  "get_data (snd (unbind p (Some c) s)) b =
    (case get_data s p of None \<Rightarrow> get_data s b
     | Some td \<Rightarrow> if c \<notin> set (components td) then get_data s b
        else map_option (\<lambda>d. (if b = c then d\<lparr>bound := False, parent := None\<rparr> else d))
              (map_option (\<lambda>d. if b = p then d\<lparr>components := removeAll c (components d)\<rparr> else d) (get_data s b)))"
  by (auto simp: unbind_def Let_def option.map_comp o_def option.map_ident split: option.splits)

lemma get_data_alloc [simp]:
  "get_data (s\<lparr>heap := (heap s)(a \<mapsto> ob), next_oid := k\<rparr>) b = (if b = a then data ob else get_data s b)"
  by (simp add: get_data_def)

lemma core_subscribe [simp]: "core (subscribe ow tgt ev h s) b = core s b"
  by (simp add: core_def option.map_comp o_def)

lemma core_on [simp]: "core (snd (on a ev h s)) b = core s b"
  by (simp add: core_def)

lemma core_bind_child_to_parent [simp]: "core (bind_child_to_parent child par weak s) b = core s b"
  by (simp add: bind_child_to_parent_def Let_def)

lemma core_upd_data:
  "core (upd_data a f s) b =
     (if b = a then map_option (\<lambda>d. (f d)\<lparr>events := []\<rparr>) (get_data s a) else core s b)"
  by (simp add: core_def option.map_comp o_def)

lemma core_eqD:
  assumes "core s' a = core s b" and "get_data s b = Some d"
  shows "\<exists>d'. get_data s' a = Some d' \<and> bound d' = bound d \<and> closed d' = closed d
           \<and> parent d' = parent d \<and> components d' = components d
           \<and> ready_promise d' = ready_promise d \<and> close_async d' = close_async d
           \<and> name d' = name d \<and> ctor_name d' = ctor_name d \<and> target d' = target d"
proof -
  from assms obtain d' where d': "get_data s' a = Some d'" and eq: "d'\<lparr>events := []\<rparr> = d\<lparr>events := []\<rparr>"
    by (auto simp: core_def)
  have "bound d' = bound (d'\<lparr>events := []\<rparr>)" "closed d' = closed (d'\<lparr>events := []\<rparr>)"
    "parent d' = parent (d'\<lparr>events := []\<rparr>)" "components d' = components (d'\<lparr>events := []\<rparr>)"
    "ready_promise d' = ready_promise (d'\<lparr>events := []\<rparr>)" "close_async d' = close_async (d'\<lparr>events := []\<rparr>)"
    "name d' = name (d'\<lparr>events := []\<rparr>)" "ctor_name d' = ctor_name (d'\<lparr>events := []\<rparr>)"
    "target d' = target (d'\<lparr>events := []\<rparr>)"
    by simp_all
  with d' show ?thesis unfolding eq by simp
qed

lemma core_None: "core s a = None \<longleftrightarrow> get_data s a = None"
  by (simp add: core_def)

lemma bind_child_to_parent_None [simp]:
  "get_data (bind_child_to_parent child par weak s) b = None \<longleftrightarrow> get_data s b = None"
  using core_bind_child_to_parent[of child par weak s b] by (simp only: core_None[symmetric])

section \<open>Contract violations of bind and unbind\<close>

lemma new_ComponentWrapper_fresh:
  assumes "new_ComponentWrapper c nm s = (w, s1)"
  shows "w = next_oid s" and "\<exists>d. get_data s1 w = Some d \<and> \<not> bound d"
    and "get_data s self \<noteq> None \<Longrightarrow> get_data s1 self \<noteq> None"
proof -
  define s0 where "s0 = snd (new_Component nm True False s)"
  have w: "w = next_oid s" and s1: "s1 = upd_data w (\<lambda>d. d\<lparr>target := c\<rparr>)
            (subscribe w c Error (Wrapper_error w) (bind_child_to_parent c w False s0))"
    using assms by (auto simp: new_ComponentWrapper_def new_Component_def Let_def split_def s0_def)
  show "w = next_oid s" by fact
  have "\<exists>d. get_data s0 w = Some d \<and> \<not> bound d"
    by (auto simp: s0_def w new_Component_def Let_def set_ready_def)
  then obtain d where d: "get_data s0 w = Some d" "\<not> bound d" by blast
  have "core (subscribe w c Error (Wrapper_error w) (bind_child_to_parent c w False s0)) w = core s0 w"
    by simp
  from core_eqD[OF this d(1)] d(2) show "\<exists>d. get_data s1 w = Some d \<and> \<not> bound d"
    by (auto simp: s1)
  assume "get_data s self \<noteq> None"
  then have "get_data s0 self \<noteq> None"
    by (auto simp: s0_def new_Component_def Let_def set_ready_def)
  moreover have "get_data s1 self = None \<longleftrightarrow> get_data s0 self = None"
    by (simp add: s1)
  ultimately show "get_data s1 self \<noteq> None" by simp
qed

lemma bind_component_throws:
  "get_data s self = Some td \<Longrightarrow> get_data s c = Some d \<Longrightarrow>
   contract_violation (fst (bind_component self c weak s)) = bound d"
  by (simp add: bind_component_def contract_violation_def Let_def)

lemma bind_component_unchanged:
  "contract_violation (fst (bind_component self c weak s)) \<Longrightarrow> snd (bind_component self c weak s) = s"
  by (auto simp: bind_component_def contract_violation_def Let_def split: option.splits if_splits)

text \<open>
  Claim C8. For a component \<open>self\<close>: \<open>bind(sub)\<close> throws a contract violation exactly
  when \<open>sub\<close> is null/undefined or is a component that is already bound; \<open>unbind(sub)\<close>
  throws one whenever \<open>sub\<close> is not in the child set of \<open>self\<close>; and in these failing cases
  the child set of \<open>self\<close> is what it was.
\<close>

theorem bind_unbind_contract:
  assumes "get_data s self = Some td"
  shows "(contract_violation (fst (bind self sub weak s)) \<longleftrightarrow>
           (sub = None \<or> (\<exists>c d. sub = Some c \<and> get_data s c = Some d \<and> bound d)))
       \<and> (contract_violation (fst (bind self sub weak s)) \<longrightarrow>
            children (snd (bind self sub weak s)) self = children s self)
       \<and> ((\<forall>c. sub = Some c \<longrightarrow> c \<notin> set (children s self)) \<longrightarrow>
            contract_violation (fst (unbind self sub s))
            \<and> children (snd (unbind self sub s)) self = children s self)"
proof (intro conjI)
  show "contract_violation (fst (bind self sub weak s)) \<longleftrightarrow>
           (sub = None \<or> (\<exists>c d. sub = Some c \<and> get_data s c = Some d \<and> bound d))"
  proof (cases sub)
    case None
    with assms show ?thesis by (simp add: bind_def contract_violation_def)
  next
    case (Some c)
    show ?thesis
    proof (cases "heap s c")
      case None
      with Some assms show ?thesis
        by (simp add: bind_def contract_violation_def get_data_def)
    next
      case (Some ob)
      note ob = this
      show ?thesis
      proof (cases "data ob")
        case None
        obtain w s1 where w: "new_ComponentWrapper c ''Wrapper'' s = (w, s1)"
          by (cases "new_ComponentWrapper c ''Wrapper'' s")
        from new_ComponentWrapper_fresh(2)[OF w]
        obtain d1 where "get_data s1 w = Some d1" "\<not> bound d1" by blast
        moreover from new_ComponentWrapper_fresh(3)[OF w, of self] assms
        obtain td1 where "get_data s1 self = Some td1" by auto
        ultimately have "\<not> contract_violation (fst (bind_component self w False s1))"
          by (simp add: bind_component_throws)
        with None ob \<open>sub = Some c\<close> assms w show ?thesis
          by (simp add: bind_def get_data_def)
      next
        case (Some d)
        with ob \<open>sub = Some c\<close> assms show ?thesis
          by (simp add: bind_def bind_component_throws get_data_def)
      qed
    qed
  qed
next
  show "contract_violation (fst (bind self sub weak s)) \<longrightarrow>
            children (snd (bind self sub weak s)) self = children s self"
  proof
    assume cv: "contract_violation (fst (bind self sub weak s))"
    show "children (snd (bind self sub weak s)) self = children s self"
    proof (cases sub)
      case None
      with assms show ?thesis by (simp add: bind_def)
    next
      case (Some c)
      show ?thesis
      proof (cases "heap s c")
        case None
        with Some assms show ?thesis by (simp add: bind_def)
      next
        case (Some ob)
        note ob = this
        show ?thesis
        proof (cases "data ob")
          case None
          obtain w s1 where w: "new_ComponentWrapper c ''Wrapper'' s = (w, s1)"
            by (cases "new_ComponentWrapper c ''Wrapper'' s")
          from new_ComponentWrapper_fresh(2)[OF w]
          obtain d1 where "get_data s1 w = Some d1" "\<not> bound d1" by blast
          moreover from new_ComponentWrapper_fresh(3)[OF w, of self] assms
          obtain td1 where "get_data s1 self = Some td1" by auto
          ultimately have "\<not> contract_violation (fst (bind_component self w False s1))"
            by (simp add: bind_component_throws)
          with None ob \<open>sub = Some c\<close> assms w cv show ?thesis
            by (simp add: bind_def get_data_def)
        next
          case (Some d)
          with ob \<open>sub = Some c\<close> assms cv have "snd (bind self sub weak s) = s"
            by (simp add: bind_def bind_component_unchanged)
          then show ?thesis by simp
        qed
      qed
    qed
  qed
next
  show "(\<forall>c. sub = Some c \<longrightarrow> c \<notin> set (children s self)) \<longrightarrow>
            contract_violation (fst (unbind self sub s))
            \<and> children (snd (unbind self sub s)) self = children s self"
    using assms
    by (cases sub) (auto simp: unbind_def contract_violation_def children_def)
qed

section \<open>Frame properties of the primitive steps\<close>

lemmas obs_defs = is_component_def is_closed_def children_def readiness_def parent_of_def
  has_hook_def subscriptions_def has_on_def

lemma get_data_console_error [simp]: "get_data (console_error r s) b = get_data s b"
  by (simp add: console_error_def split: outcome.splits)

lemma get_data_ready_rej [simp]:
  "get_data (ready_rej c err s) b =
     (if b = c \<and> readiness s c = Pending
      then map_option (\<lambda>d. d\<lparr>ready_promise := Rejected err\<rparr>) (get_data s c)
      else get_data s b)"
  by (simp add: ready_rej_def)

lemma cleanup_cases [case_names not_component no_parent parent_gone not_member unbound]:
  obtains
    "get_data s c = None" "cleanup c s = (Thrown TypeError, s)"
  | d where "get_data s c = Some d" "parent d = None"
      "cleanup c s = (Ok, unsubscribe_all c (removeAllListeners c s))"
  | d p where "get_data s c = Some d" "parent d = Some p" "get_data s p = None"
      "cleanup c s = (Thrown TypeError, s)"
  | d p td where "get_data s c = Some d" "parent d = Some p" "get_data s p = Some td"
      "c \<notin> set (components td)" "cleanup c s = (Thrown NotBound, s)"
  | d p td where "get_data s c = Some d" "parent d = Some p" "get_data s p = Some td"
      "c \<in> set (components td)"
      "cleanup c s = (Ok, unsubscribe_all c (removeAllListeners c
          (upd_data c (\<lambda>d. d\<lparr>bound := False, parent := None\<rparr>)
            (upd_data p (\<lambda>t. t\<lparr>components := removeAll c (components t)\<rparr>) s))))"
proof (cases "get_data s c")
  case None
  then show ?thesis using that(1) by (simp add: cleanup_def)
next
  case (Some d)
  note d = this
  show ?thesis
  proof (cases "parent d")
    case None
    with d show ?thesis using that(2) by (simp add: cleanup_def)
  next
    case (Some p)
    note p = this
    show ?thesis
    proof (cases "get_data s p")
      case None
      with d p show ?thesis using that(3) by (simp add: cleanup_def unbind_def)
    next
      case (Some td)
      show ?thesis
      proof (cases "c \<in> set (components td)")
        case False
        with d p Some show ?thesis using that(4) by (simp add: cleanup_def unbind_def)
      next
        case True
        with d p Some show ?thesis using that(5)[OF d p Some True]
          by (auto simp: cleanup_def unbind_def Let_def)
      qed
    qed
  qed
qed

lemma heap_None_upd_obj [simp]: "heap (upd_obj a f s) b = None \<longleftrightarrow> heap s b = None"
  by (simp add: upd_obj_def)

lemma heap_None_upd_data [simp]: "heap (upd_data a f s) b = None \<longleftrightarrow> heap s b = None"
  by (simp add: upd_data_def)

lemma listeners_of_upd_data [simp]: "listeners_of (upd_data a f s) b = listeners_of s b"
  by (auto simp: listeners_of_def upd_data_def upd_obj_def split: option.splits)

lemma listeners_of_removeAllListeners [simp]:
  "listeners_of (removeAllListeners a s) b = (if b = a then [] else listeners_of s b)"
  by (auto simp: listeners_of_def removeAllListeners_def upd_obj_def split: option.splits)

lemma listeners_of_unsubscribe_all:
  "listeners_of (unsubscribe_all c s) b =
     filter (\<lambda>x. (b, fst x) \<notin> set (subscriptions s c)) (listeners_of s b)"
  by (auto simp: listeners_of_def unsubscribe_all_def subscriptions_def fold_remove_listener
      upd_data_def upd_obj_def get_data_def split: option.splits)

lemma heap_None_unsubscribe_all [simp]: "heap (unsubscribe_all c s) b = None \<longleftrightarrow> heap s b = None"
  by (auto simp: unsubscribe_all_def fold_remove_listener split: option.splits)

lemma heap_None_removeAllListeners [simp]:
  "heap (removeAllListeners c s) b = None \<longleftrightarrow> heap s b = None"
  by (simp add: removeAllListeners_def)

lemma listeners_of_state_upd [simp]:
  "listeners_of (s\<lparr>trace := tr\<rparr>) a = listeners_of s a"
  "listeners_of (s\<lparr>calls := cl\<rparr>) a = listeners_of s a"
  "listeners_of (s\<lparr>console := co\<rparr>) a = listeners_of s a"
  "listeners_of (s\<lparr>pending_close := pc\<rparr>) a = listeners_of s a"
  "listeners_of (s\<lparr>unhandled := uh\<rparr>) a = listeners_of s a"
  "listeners_of (s\<lparr>next_lid := nl\<rparr>) a = listeners_of s a"
  by (simp_all add: listeners_of_def)

lemma heap_state_upd [simp]:
  "heap (log_emit a ev v s) = heap s"
  "heap (console_error r s) = heap s"
  by (simp_all add: log_emit_def console_error_def split: outcome.splits)

lemma listeners_of_simple [simp]:
  "listeners_of (log_emit a ev v s) b = listeners_of s b"
  "listeners_of (console_error r s) b = listeners_of s b"
  "listeners_of (mark_closed c s) b = listeners_of s b"
  "listeners_of (settle c p s) b = listeners_of s b"
  "listeners_of (ready_rej c err s) b = listeners_of s b"
  by (simp_all add: log_emit_def console_error_def mark_closed_def settle_def ready_rej_def
      split: outcome.splits)

lemma listeners_of_foreign_close [simp]:
  "listeners_of (snd (foreign_close a s)) b = listeners_of s b"
  by (auto simp: listeners_of_def foreign_close_def upd_obj_def split: option.splits)

lemma heap_None_simple [simp]:
  "heap (mark_closed c s) b = None \<longleftrightarrow> heap s b = None"
  "heap (settle c p s) b = None \<longleftrightarrow> heap s b = None"
  "heap (ready_rej c err s) b = None \<longleftrightarrow> heap s b = None"
  "heap (snd (foreign_close a s)) b = None \<longleftrightarrow> heap s b = None"
  by (auto simp: mark_closed_def settle_def ready_rej_def foreign_close_def split: option.splits)

lemma evolves_refl [simp]: "evolves s s"
  by (simp add: evolves_def)

lemma evolves_trans: "evolves s s1 \<Longrightarrow> evolves s1 s2 \<Longrightarrow> evolves s s2"
  unfolding evolves_def by (metis subset_trans)

lemma evolves_log_emit [simp]: "evolves s (log_emit a ev v s)"
  by (simp add: evolves_def obs_defs)

lemma evolves_console_error [simp]: "evolves s (console_error r s)"
  by (simp add: evolves_def obs_defs)

lemma evolves_calls [simp]: "evolves s (s\<lparr>calls := x\<rparr>)"
  by (simp add: evolves_def obs_defs)

lemma evolves_foreign_close: "foreign_close a s = (r, s') \<Longrightarrow> evolves s s'"
proof -
  assume "foreign_close a s = (r, s')"
  then have "s' = snd (foreign_close a s)" by simp
  then show ?thesis by (simp add: evolves_def obs_defs)
qed

lemma evolves_mark_closed [simp]: "evolves s (mark_closed c s)"
  by (auto simp: evolves_def obs_defs split: option.splits)

lemma evolves_pending [simp]: "evolves s (s\<lparr>pending_close := x\<rparr>)"
  by (simp add: evolves_def obs_defs)

lemma evolves_ready_rej [simp]: "evolves s (ready_rej c err s)"
  by (auto simp: evolves_def obs_defs split: option.splits)

lemma evolves_cleanup: "evolves s (snd (cleanup c s))"
proof (cases rule: cleanup_cases[of s c])
  case (no_parent d)
  then show ?thesis
    by (auto simp: evolves_def obs_defs listeners_of_unsubscribe_all split: option.splits)
next
  case (unbound d p td)
  then show ?thesis
    by (auto simp: evolves_def obs_defs listeners_of_unsubscribe_all split: option.splits)
qed simp_all

lemma evolves_try_finally: "try_finally r1 (cleanup c s1) = (r, s') \<Longrightarrow> evolves s1 s'"
  using evolves_cleanup[of s1 c]
  by (cases "cleanup c s1") (auto simp: try_finally_def split: outcome.splits)

lemma exec_evolves: "exec i s r s' \<Longrightarrow> evolves s s'"
proof (induction rule: exec.induct)
  case (close_async s c d)
  have "evolves (mark_closed c s) ((mark_closed c s)\<lparr>pending_close := pending_close s @ [c]\<rparr>)"
    by simp
  then show ?case using evolves_mark_closed evolves_trans by blast
qed (auto intro: evolves_trans evolves_log_emit evolves_console_error evolves_foreign_close
       evolves_mark_closed evolves_ready_rej evolves_try_finally)

inductive_cases exec_EMIT_E: "exec (EMIT a ev v) s r s'"
inductive_cases exec_DISPATCH_Nil_E: "exec (DISPATCH [] v) s r s'"
inductive_cases exec_DISPATCH_Cons_E: "exec (DISPATCH (h # hs) v) s r s'"
inductive_cases exec_CALL_E: "exec (CALL h v) s r s'"
inductive_cases exec_CLOSE_E: "exec (CLOSE c) s r s'"
inductive_cases exec_SET_FAILED_E: "exec (SET_FAILED c err) s r s'"

lemma evolvesD:
  assumes "evolves s s'"
  shows "is_component s' a = is_component s a" "is_closed s a \<Longrightarrow> is_closed s' a"
    "has_hook s' a = has_hook s a" "set (children s' a) \<subseteq> set (children s a)"
    "set (listeners_of s' a) \<subseteq> set (listeners_of s a)"
    "readiness s a \<noteq> Pending \<Longrightarrow> readiness s' a = readiness s a"
    "heap s' a = None \<longleftrightarrow> heap s a = None"
  using assms unfolding evolves_def by blast+

lemma is_closed_mark_closed [simp]:
  "is_closed (mark_closed c s) a = (if a = c then is_component s c else is_closed s a)"
  by (auto simp: obs_defs split: option.splits)

lemma exec_CLOSE_closes:
  assumes "exec (CLOSE c) s r s'" and "is_component s c"
  shows "is_closed s' c"
  using assms(1)
proof (rule exec_CLOSE_E)
  fix d assume "get_data s c = Some d" "closed d" "s' = s"
  then show ?thesis by (simp add: obs_defs)
next
  fix d assume "s' = (mark_closed c s)\<lparr>pending_close := pending_close s @ [c]\<rparr>"
  with assms(2) show ?thesis by (simp add: is_closed_def is_component_def split: option.splits)
next
  fix d assume "exec (DO_CLOSE c) (mark_closed c s) r s'"
  from exec_evolves[OF this] assms(2) show ?thesis
    by (auto dest: evolvesD(2))
next
  assume "get_data s c = None"
  with assms(2) show ?thesis by (simp add: is_component_def)
qed

section \<open>The close cascade\<close>

lemma exec_safe_call: "exec (CALL h v) s r s' \<Longrightarrow> safe h \<Longrightarrow> r = Ok"
  by (erule exec_CALL_E) (auto split: option.splits)

lemma exec_safe_dispatch:
  "exec (DISPATCH hs v) s r s' \<Longrightarrow> \<forall>h\<in>set hs. safe h \<Longrightarrow> r = Ok"
proof (induction hs arbitrary: s)
  case Nil
  then show ?case by (auto elim: exec_DISPATCH_Nil_E)
next
  case (Cons h hs)
  from Cons.prems(1) show ?case
  proof (rule exec_DISPATCH_Cons_E)
    fix e assume "exec (CALL h v) s (Thrown e) s'" "r = Thrown e"
    with exec_safe_call[of h v s "Thrown e" s'] Cons.prems(2) show ?thesis by simp
  next
    fix s1 assume "exec (DISPATCH hs v) s1 r s'"
    with Cons.IH Cons.prems(2) show ?thesis by simp
  qed
qed

lemma has_on_is_component [simp]: "has_on s a = is_component s a"
  by (simp add: has_on_def is_component_def)

lemma is_closed_console_error [simp]: "is_closed (console_error r s) a = is_closed s a"
  by (simp add: is_closed_def)

lemma is_component_console_error [simp]: "is_component (console_error r s) a = is_component s a"
  by (simp add: is_component_def)



lemma same_link_refl [simp]: "same_link c s s"
  by (simp add: same_link_def)

lemma same_link_trans: "same_link c s s1 \<Longrightarrow> same_link c s1 s2 \<Longrightarrow> same_link c s s2"
  by (simp add: same_link_def)

lemma trace_simple [simp]:
  "trace (console_error r s) = trace s"
  "trace (mark_closed c s) = trace s"
  "trace (ready_rej c err s) = trace s"
  "trace (snd (foreign_close a s)) = trace s"
  "trace (upd_data a f s) = trace s"
  "trace (removeAllListeners a s) = trace s"
  "trace (unsubscribe_all a s) = trace s"
  by (auto simp: console_error_def mark_closed_def ready_rej_def settle_def foreign_close_def
      upd_data_def upd_obj_def removeAllListeners_def unsubscribe_all_def fold_remove_listener
      split: outcome.splits option.splits)

lemma trace_cleanup [simp]: "trace (snd (cleanup c s)) = trace s"
  by (cases rule: cleanup_cases[of s c]) simp_all

lemma snd_try_finally [simp]: "snd (try_finally r f) = snd f"
  by (cases f) (auto simp: try_finally_def split: outcome.splits)

lemma emissions_simple [simp]:
  "emissions (console_error r s) = emissions s"
  "emissions (mark_closed c s) = emissions s"
  "emissions (ready_rej c err s) = emissions s"
  "emissions (snd (foreign_close a s)) = emissions s"
  "emissions (snd (cleanup c s)) = emissions s"
  "emissions (s\<lparr>calls := x\<rparr>) = emissions s"
  "emissions (s\<lparr>pending_close := y\<rparr>) = emissions s"
  by (simp_all add: emissions_def fun_eq_iff)

lemma emissions_log_emit [simp]:
  "emissions (log_emit a ev v s) b ev' =
     (if a = b \<and> ev = ev' then Suc (emissions s b ev') else emissions s b ev')"
  by (simp add: emissions_def log_emit_def)

lemma same_link_simple [simp]:
  "same_link c s (console_error r s)"
  "same_link c s (mark_closed c' s)"
  "same_link c s (ready_rej c' err s)"
  "same_link c s (snd (foreign_close a s))"
  "same_link c s (s\<lparr>calls := x\<rparr>)"
  "same_link c s (s\<lparr>pending_close := y\<rparr>)"
  by (auto simp: same_link_def obs_defs split: option.splits)

lemma same_link_log_emit [simp]: "same_link c s (log_emit a ev v s)"
  by (auto simp: same_link_def obs_defs)

lemma same_link_cleanup:
  assumes "c' \<noteq> c"
  shows "same_link c s (snd (cleanup c' s))"
proof -
  have "parent_of (snd (cleanup c' s)) c = parent_of s c
      \<and> subscriptions (snd (cleanup c' s)) c = subscriptions s c
      \<and> (\<forall>p. (c \<in> set (children (snd (cleanup c' s)) p)) = (c \<in> set (children s p)))"
    using assms
    by (cases rule: cleanup_cases[of s c']) (auto simp: obs_defs split: option.splits)
  then show ?thesis by (simp add: same_link_def)
qed

lemma is_closed_ready_rej [simp]: "is_closed (ready_rej c err s) a = is_closed s a"
  by (auto simp: is_closed_def split: option.splits)

lemma exec_closed_frame:
  "exec i s r s' \<Longrightarrow> is_closed s c \<Longrightarrow> i \<noteq> DO_CLOSE c \<Longrightarrow> same_link c s s'"
proof (induction rule: exec.induct)
  case (emit_listeners s a ob ev v r s')
  then have "same_link c s (log_emit a ev v s)" "same_link c (log_emit a ev v s) s'"
    by (auto intro: same_link_log_emit simp: is_closed_def)
  then show ?case by (rule same_link_trans)
next
  case (dispatch_next h v s s1 hs r s')
  from exec_evolves[OF dispatch_next(1)] dispatch_next.prems have "is_closed s1 c"
    by (auto dest: evolvesD(2))
  with dispatch_next show ?case by (auto intro: same_link_trans)
next
  case (call_parent_close s child r s' v)
  then have "same_link c s s'" by simp
  then show ?case using same_link_simple(1) same_link_trans by blast
next
  case (call_parent_close_foreign s child r s' v)
  then have "s' = snd (foreign_close child s)" by simp
  then have "same_link c s s'" by simp
  then show ?case using same_link_simple(1) same_link_trans by blast
next
  case (call_child_close p s r s' v)
  then have "same_link c s s'" by simp
  then show ?case using same_link_simple(1) same_link_trans by blast
next
  case (close_async s c' d)
  have "same_link c s (mark_closed c' s)"
    "same_link c (mark_closed c' s) ((mark_closed c' s)\<lparr>pending_close := pending_close s @ [c']\<rparr>)"
    by simp_all
  then show ?case by (rule same_link_trans)
next
  case (close_sync s c' d r s')
  from close_sync.prems close_sync.hyps have "c' \<noteq> c"
    by (auto simp: is_closed_def)
  with close_sync have "same_link c (mark_closed c' s) s'" by simp
  then show ?case using same_link_simple(2) same_link_trans by blast
next
  case (do_close c' s r1 s1 r s')
  then have "c' \<noteq> c" by simp
  from do_close have 1: "same_link c s s1" by simp
  from do_close(2) have "s' = snd (cleanup c' s1)"
    by (metis snd_conv snd_try_finally)
  with \<open>c' \<noteq> c\<close> have "same_link c s1 s'" by (simp add: same_link_cleanup)
  with 1 show ?case by (rule same_link_trans)
next
  case (set_failed c' err s r s')
  then have "same_link c (ready_rej c' err s) s'" by simp
  then show ?case using same_link_simple(3) same_link_trans by blast
qed simp_all

lemma obs_mark_closed [simp]:
  "parent_of (mark_closed c s) = parent_of s"
  "subscriptions (mark_closed c s) = subscriptions s"
  "children (mark_closed c s) = children s"
  "is_component (mark_closed c s) = is_component s"
  by (auto simp: obs_defs fun_eq_iff split: option.splits)

lemma obs_log_emit [simp]:
  "parent_of (log_emit a ev v s) = parent_of s"
  "subscriptions (log_emit a ev v s) = subscriptions s"
  "children (log_emit a ev v s) = children s"
  "is_component (log_emit a ev v s) = is_component s"
  "is_closed (log_emit a ev v s) = is_closed s"
  by (auto simp: obs_defs fun_eq_iff split: option.splits)


lemma subscriptions_removeAllListeners [simp]:
  "subscriptions (removeAllListeners a s) = subscriptions s"
  by (simp add: subscriptions_def fun_eq_iff)

lemma cleanup_linked:
  assumes "is_component s c" and "\<forall>p. parent_of s c = Some p \<longrightarrow> c \<in> set (children s p)"
  shows "fst (cleanup c s) = Ok"
    and "parent_of (snd (cleanup c s)) c = None"
    and "\<forall>p. parent_of s c = Some p \<longrightarrow> c \<notin> set (children (snd (cleanup c s)) p)"
    and "listeners_of (snd (cleanup c s)) c = []"
    and "subscriptions (snd (cleanup c s)) c = []"
    and "\<forall>(t, l) \<in> set (subscriptions s c). l \<notin> fst ` set (listeners_of (snd (cleanup c s)) t)"
proof -
  have "fst (cleanup c s) = Ok
    \<and> parent_of (snd (cleanup c s)) c = None
    \<and> (\<forall>p. parent_of s c = Some p \<longrightarrow> c \<notin> set (children (snd (cleanup c s)) p))
    \<and> listeners_of (snd (cleanup c s)) c = []
    \<and> subscriptions (snd (cleanup c s)) c = []
    \<and> (\<forall>(t, l) \<in> set (subscriptions s c). l \<notin> fst ` set (listeners_of (snd (cleanup c s)) t))"
  proof (cases rule: cleanup_cases[of s c])
    case not_component
    with assms(1) show ?thesis by (simp add: is_component_def)
  next
    case (no_parent d)
    then show ?thesis
      by (auto simp: listeners_of_unsubscribe_all parent_of_def subscriptions_def)
  next
    case (parent_gone d p)
    with assms(2) show ?thesis by (auto simp: parent_of_def children_def)
  next
    case (not_member d p td)
    with assms(2) show ?thesis by (auto simp: parent_of_def children_def)
  next
    case (unbound d p td)
    then show ?thesis
      by (auto simp: listeners_of_unsubscribe_all parent_of_def subscriptions_def children_def)
  qed
  then show "fst (cleanup c s) = Ok"
    and "parent_of (snd (cleanup c s)) c = None"
    and "\<forall>p. parent_of s c = Some p \<longrightarrow> c \<notin> set (children (snd (cleanup c s)) p)"
    and "listeners_of (snd (cleanup c s)) c = []"
    and "subscriptions (snd (cleanup c s)) c = []"
    and "\<forall>(t, l) \<in> set (subscriptions s c). l \<notin> fst ` set (listeners_of (snd (cleanup c s)) t)"
    by blast+
qed

lemma is_closed_cleanup [simp]: "is_closed (snd (cleanup c s)) a = is_closed s a"
  by (cases rule: cleanup_cases[of s c]) (auto simp: is_closed_def split: option.splits)

section \<open>Children and their link to the parent\<close>

lemma obs_simple [simp]:
  "parent_of (console_error r s) = parent_of s"
  "children (console_error r s) = children s"
  "has_hook (console_error r s) = has_hook s"
  "subscriptions (console_error r s) = subscriptions s"
  "parent_of (s\<lparr>calls := x\<rparr>) = parent_of s"
  "children (s\<lparr>calls := x\<rparr>) = children s"
  "has_hook (s\<lparr>calls := x\<rparr>) = has_hook s"
  "is_component (s\<lparr>calls := x\<rparr>) = is_component s"
  "is_closed (s\<lparr>calls := x\<rparr>) = is_closed s"
  "subscriptions (s\<lparr>calls := x\<rparr>) = subscriptions s"
  "parent_of (s\<lparr>pending_close := y\<rparr>) = parent_of s"
  "children (s\<lparr>pending_close := y\<rparr>) = children s"
  "has_hook (s\<lparr>pending_close := y\<rparr>) = has_hook s"
  "is_component (s\<lparr>pending_close := y\<rparr>) = is_component s"
  "is_closed (s\<lparr>pending_close := y\<rparr>) = is_closed s"
  "subscriptions (s\<lparr>pending_close := y\<rparr>) = subscriptions s"
  "parent_of (ready_rej c err s) = parent_of s"
  "children (ready_rej c err s) = children s"
  "has_hook (ready_rej c err s) = has_hook s"
  "is_component (ready_rej c err s) = is_component s"
  "subscriptions (ready_rej c err s) = subscriptions s"
  "parent_of (snd (foreign_close a s)) = parent_of s"
  "children (snd (foreign_close a s)) = children s"
  "has_hook (snd (foreign_close a s)) = has_hook s"
  "is_component (snd (foreign_close a s)) = is_component s"
  "is_closed (snd (foreign_close a s)) = is_closed s"
  "subscriptions (snd (foreign_close a s)) = subscriptions s"
  "has_hook (log_emit a ev v s) = has_hook s"
  "has_hook (mark_closed c s) = has_hook s"
  by (auto simp: obs_defs fun_eq_iff split: option.splits)







lemma linked_open_linked: "linked_open k R s \<Longrightarrow> linked k R s"
  by (auto simp: linked_open_def linked_def)


section \<open>Closing a parent\<close>

lemma listeners_of_heap: "heap s a = Some ob \<Longrightarrow> listeners ob = listeners_of s a"
  by (simp add: listeners_of_def)


section \<open>A parent closes the children that are still open\<close>


lemma handlers_for_mono:
  "set ls' \<subseteq> set ls \<Longrightarrow> set (handlers_for ev ls') \<subseteq> set (handlers_for ev ls)"
  by (auto simp: handlers_for_def)


lemma guarded_evolves_closed:
  "guarded P W l s \<Longrightarrow> evolves s s' \<Longrightarrow> is_closed s' W \<Longrightarrow> guarded P W l s'"
  by (auto simp: guarded_def dest: evolvesD(1))



lemma obs_cleanup [simp]:
  "is_component (snd (cleanup c s)) = is_component s"
  "has_hook (snd (cleanup c s)) = has_hook s"
  by (rule ext, cases rule: cleanup_cases[of s c], auto simp: obs_defs split: option.splits)+




lemma obs_fun_simple [simp]:
  "is_component (console_error r s) = is_component s"
  "is_closed (console_error r s) = is_closed s"
  "is_closed (ready_rej c err s) = is_closed s"
  by (simp_all add: fun_eq_iff)


section \<open>Where the close cascade can go\<close>

lemma quiet_refl [simp]: "quiet D s s"
  by (simp add: quiet_def)

lemma quiet_trans: "quiet D s s1 \<Longrightarrow> quiet D s1 s2 \<Longrightarrow> quiet D s s2"
  by (auto simp: quiet_def)

lemma readiness_simple [simp]:
  "readiness (log_emit a ev v s) = readiness s"
  "readiness (console_error r s) = readiness s"
  "readiness (mark_closed c s) = readiness s"
  "readiness (snd (foreign_close a s)) = readiness s"
  "readiness (snd (cleanup c s)) = readiness s"
  "readiness (s\<lparr>calls := x\<rparr>) = readiness s"
  "readiness (s\<lparr>pending_close := y\<rparr>) = readiness s"
proof -
  show "readiness (snd (cleanup c s)) = readiness s"
    by (rule ext, cases rule: cleanup_cases[of s c]) (auto simp: readiness_def split: option.splits)
qed (auto simp: readiness_def fun_eq_iff split: option.splits)

lemma quiet_simple [simp]:
  "quiet D s (log_emit a ev v s)"
  "quiet D s (console_error r s)"
  "quiet D s (snd (foreign_close a s))"
  "quiet D s (snd (cleanup c s))"
  "quiet D s (s\<lparr>calls := x\<rparr>)"
  by (simp_all add: quiet_def)

lemma quiet_mark_closed: "c \<in> D \<Longrightarrow> quiet D s (mark_closed c s)"
  by (simp add: quiet_def)

lemma confined_evolves: "confined D s \<Longrightarrow> evolves s s' \<Longrightarrow> confined D s'"
  unfolding confined_def using handlers_for_mono evolvesD(5) by (meson subsetD)

lemma exec_confined:
  "exec i s r s' \<Longrightarrow> confined D s \<Longrightarrow> inside D i \<Longrightarrow> quiet D s s'"
proof (induction rule: exec.induct)
  case (emit_listeners s a ob ev v r s')
  from emit_listeners.prems have "ev = Close" "a \<in> D" by simp_all
  with emit_listeners.prems(1) emit_listeners.hyps(1)
  have "\<forall>h \<in> set (handlers_for ev (listeners ob)). within D h"
    by (simp add: confined_def listeners_of_heap)
  moreover from emit_listeners.prems(1) have "confined D (log_emit a ev v s)"
    by (rule confined_evolves) simp
  ultimately have "quiet D (log_emit a ev v s) s'"
    using emit_listeners.IH by simp
  then show ?case using quiet_simple(1) quiet_trans by blast
next
  case (dispatch_next h v s s1 hs r s')
  then have 1: "quiet D s s1" by simp
  from dispatch_next.prems(1) exec_evolves[OF dispatch_next.hyps(1)] have "confined D s1"
    by (rule confined_evolves)
  with dispatch_next have "quiet D s1 s'" by simp
  with 1 show ?case by (rule quiet_trans)
next
  case (call_parent_close s child r s' v)
  then have "quiet D s s'" by simp
  then show ?case using quiet_simple(2) quiet_trans by blast
next
  case (call_parent_close_foreign s child r s' v)
  then have "s' = snd (foreign_close child s)" by simp
  then have "quiet D s s'" by simp
  then show ?case using quiet_simple(2) quiet_trans by blast
next
  case (call_child_close p s r s' v)
  then have "quiet D s s'" by simp
  then show ?case using quiet_simple(2) quiet_trans by blast
next
  case (close_async s c d)
  then have "quiet D s (mark_closed c s)" by (simp add: quiet_mark_closed)
  moreover have "quiet D (mark_closed c s) ((mark_closed c s)\<lparr>pending_close := pending_close s @ [c]\<rparr>)"
    by (simp add: quiet_def)
  ultimately show ?case by (rule quiet_trans)
next
  case (close_sync s c d r s')
  then have 1: "quiet D s (mark_closed c s)" by (simp add: quiet_mark_closed)
  from close_sync.prems(1) have "confined D (mark_closed c s)"
    by (rule confined_evolves) simp
  with close_sync have "quiet D (mark_closed c s) s'" by simp
  with 1 show ?case by (rule quiet_trans)
next
  case (do_close c s r1 s1 r s')
  then have 1: "quiet D s s1" by simp
  from do_close(2) have "s' = snd (cleanup c s1)" by (metis snd_conv snd_try_finally)
  then have "quiet D s1 s'" by simp
  with 1 show ?case by (rule quiet_trans)
qed simp_all

section \<open>Strong and weak children\<close>



section \<open>Fuel: more of it changes nothing, and a call that returns is a derivation\<close>

lemma run_mono: "run n i s = Some x \<Longrightarrow> n \<le> m \<Longrightarrow> run m i s = Some x"
proof (induction n arbitrary: m i s x)
  case 0
  then obtain v where "i = DISPATCH [] v"
    by (cases i) (auto split: list.splits)
  with 0 show ?case by (cases m) auto
next
  case (Suc n)
  from Suc.prems(2) obtain k where m: "m = Suc k" and nk: "n \<le> k"
    by (cases m) auto
  note IH = Suc.IH[OF _ nk]
  show ?case
  proof (cases i)
    case (EMIT a ev v)
    show ?thesis
    proof (cases "heap s a")
      case None
      with EMIT Suc.prems(1) m show ?thesis by simp
    next
      case (Some ob)
      with EMIT Suc.prems(1)
      have "run n (DISPATCH (handlers_for ev (listeners ob)) v) (log_emit a ev v s) = Some x"
        by simp
      from IH[OF this] EMIT Some m show ?thesis by simp
    qed
  next
    case (DISPATCH hs v)
    show ?thesis
    proof (cases hs)
      case Nil
      with DISPATCH Suc.prems(1) m show ?thesis by simp
    next
      case (Cons h hs')
      with DISPATCH Suc.prems(1) obtain r1 s1 where c: "run n (CALL h v) s = Some (r1, s1)"
        by (auto split: option.splits)
      note c' = IH[OF c]
      show ?thesis
      proof (cases r1)
        case Ok
        with c DISPATCH Cons Suc.prems(1) have "run n (DISPATCH hs' v) s1 = Some x" by simp
        from IH[OF this] c' Ok DISPATCH Cons m show ?thesis by simp
      next
        case (Thrown e)
        with c DISPATCH Cons Suc.prems(1) have "x = (Thrown e, s1)" by simp
        with c' Thrown DISPATCH Cons m show ?thesis by simp
      qed
    qed
  next
    case (CALL h v)
    show ?thesis
    proof (cases h)
      case (Set_failed c)
      with CALL Suc.prems(1) have "run n (SET_FAILED c v) s = Some x" by simp
      from IH[OF this] CALL Set_failed m show ?thesis by simp
    next
      case (On_parent_close k')
      show ?thesis
      proof (cases "has_on s k'")
        case True
        with CALL On_parent_close Suc.prems(1) obtain y where
          y: "run n (CLOSE k') s = Some y" and x: "x = (Ok, console_error (fst y) (snd y))"
          by (auto simp: catch_log_def split: option.splits)
        from IH[OF y] x True CALL On_parent_close m show ?thesis
          by (simp add: catch_log_def split: prod.splits)
      next
        case False
        with CALL On_parent_close Suc.prems(1) m show ?thesis by simp
      qed
    next
      case (Relay_warn p)
      with CALL Suc.prems(1) have "run n (EMIT p Warn v) s = Some x" by simp
      from IH[OF this] CALL Relay_warn m show ?thesis by simp
    next
      case (Relay_info p)
      with CALL Suc.prems(1) have "run n (EMIT p Info v) s = Some x" by simp
      from IH[OF this] CALL Relay_info m show ?thesis by simp
    next
      case (Error_to_warn p child)
      with CALL Suc.prems(1)
      have "run n (EMIT p Warn (warn_payload p (subcomponent_error child v))) s = Some x" by simp
      from IH[OF this] CALL Error_to_warn m show ?thesis by simp
    next
      case (On_child_close p)
      with CALL Suc.prems(1) obtain y where
        y: "run n (CLOSE p) s = Some y" and x: "x = (Ok, console_error (fst y) (snd y))"
        by (auto simp: catch_log_def split: option.splits)
      from IH[OF y] x CALL On_child_close m show ?thesis
        by (simp add: catch_log_def split: prod.splits)
    next
      case (Wrapper_error w)
      with CALL Suc.prems(1) have "run n (CLOSE w) s = Some x" by simp
      from IH[OF this] CALL Wrapper_error m show ?thesis by simp
    next
      case (Link p ev)
      with CALL Suc.prems(1) have "run n (EMIT p ev v) s = Some x" by simp
      from IH[OF this] CALL Link m show ?thesis by simp
    next
      case (User k' thr)
      with CALL Suc.prems(1) m show ?thesis by simp
    qed
  next
    case (CLOSE c)
    show ?thesis
    proof (cases "get_data s c")
      case None
      with CLOSE Suc.prems(1) m show ?thesis by simp
    next
      case (Some d)
      show ?thesis
      proof (cases "closed d \<or> close_async d")
        case True
        with Some CLOSE Suc.prems(1) m show ?thesis by auto
      next
        case False
        with Some CLOSE Suc.prems(1) have "run n (DO_CLOSE c) (mark_closed c s) = Some x" by simp
        from IH[OF this] False Some CLOSE m show ?thesis by simp
      qed
    qed
  next
    case (DO_CLOSE c)
    with Suc.prems(1) obtain y where
      y: "run n (EMIT c Close Undefined) s = Some y"
      and x: "x = try_finally (fst y) (cleanup c (snd y))"
      by (auto split: option.splits)
    from IH[OF y] x DO_CLOSE m show ?thesis by (simp split: prod.splits)
  next
    case (SET_FAILED c err)
    with Suc.prems(1) have "run n (CLOSE c) (ready_rej c err s) = Some x" by simp
    from IH[OF this] SET_FAILED m show ?thesis by simp
  qed
qed

lemma exec_run: "exec i s r s' \<Longrightarrow> \<exists>n. run n i s = Some (r, s')"
proof (induction rule: exec.induct)
  case (dispatch_nil v s)
  have "run 0 (DISPATCH [] v) s = Some (Ok, s)" by simp
  then show ?case ..
next
  case (emit_nothing s a ev v)
  then have "run (Suc 0) (EMIT a ev v) s = Some (Thrown TypeError, s)" by simp
  then show ?case ..
next
  case (emit_listeners s a ob ev v r s')
  then obtain n where "run n (DISPATCH (handlers_for ev (listeners ob)) v) (log_emit a ev v s) = Some (r, s')"
    by blast
  with emit_listeners.hyps(1) have "run (Suc n) (EMIT a ev v) s = Some (r, s')" by simp
  then show ?case ..
next
  case (dispatch_thrown h v s e s1 hs)
  then obtain n where "run n (CALL h v) s = Some (Thrown e, s1)" by blast
  then have "run (Suc n) (DISPATCH (h # hs) v) s = Some (Thrown e, s1)" by simp
  then show ?case ..
next
  case (dispatch_next h v s s1 hs r s')
  then obtain n1 n2 where "run n1 (CALL h v) s = Some (Ok, s1)"
    and "run n2 (DISPATCH hs v) s1 = Some (r, s')" by blast
  then have "run (max n1 n2) (CALL h v) s = Some (Ok, s1)"
    and "run (max n1 n2) (DISPATCH hs v) s1 = Some (r, s')"
    by (auto intro: run_mono)
  then have "run (Suc (max n1 n2)) (DISPATCH (h # hs) v) s = Some (r, s')" by simp
  then show ?case ..
next
  case (call_set_failed c v s r s')
  then obtain n where "run n (SET_FAILED c v) s = Some (r, s')" by blast
  then have "run (Suc n) (CALL (Set_failed c) v) s = Some (r, s')" by simp
  then show ?case ..
next
  case (call_parent_close s child r s' v)
  then obtain n where "run n (CLOSE child) s = Some (r, s')" by blast
  with call_parent_close.hyps(1)
  have "run (Suc n) (CALL (On_parent_close child) v) s = Some (Ok, console_error r s')"
    by (simp add: catch_log_def)
  then show ?case ..
next
  case (call_parent_close_foreign s child r s' v)
  then have "run (Suc 0) (CALL (On_parent_close child) v) s = Some (Ok, console_error r s')"
    by (simp add: catch_log_def)
  then show ?case ..
next
  case (call_relay_warn p v s r s')
  then obtain n where "run n (EMIT p Warn v) s = Some (r, s')" by blast
  then have "run (Suc n) (CALL (Relay_warn p) v) s = Some (r, s')" by simp
  then show ?case ..
next
  case (call_relay_info p v s r s')
  then obtain n where "run n (EMIT p Info v) s = Some (r, s')" by blast
  then have "run (Suc n) (CALL (Relay_info p) v) s = Some (r, s')" by simp
  then show ?case ..
next
  case (call_error_to_warn p child v s r s')
  then obtain n where "run n (EMIT p Warn (warn_payload p (subcomponent_error child v))) s = Some (r, s')" by blast
  then have "run (Suc n) (CALL (Error_to_warn p child) v) s = Some (r, s')" by simp
  then show ?case ..
next
  case (call_child_close p s r s' v)
  then obtain n where "run n (CLOSE p) s = Some (r, s')" by blast
  then have "run (Suc n) (CALL (On_child_close p) v) s = Some (Ok, console_error r s')"
    by (simp add: catch_log_def)
  then show ?case ..
next
  case (call_wrapper_error w s r s' v)
  then obtain n where "run n (CLOSE w) s = Some (r, s')" by blast
  then have "run (Suc n) (CALL (Wrapper_error w) v) s = Some (r, s')" by simp
  then show ?case ..
next
  case (call_link p ev v s r s')
  then obtain n where "run n (EMIT p ev v) s = Some (r, s')" by blast
  then have "run (Suc n) (CALL (Link p ev) v) s = Some (r, s')" by simp
  then show ?case ..
next
  case (call_user k thr v s)
  have "run (Suc 0) (CALL (User k thr) v) s =
      Some ((case thr of None \<Rightarrow> Ok | Some e \<Rightarrow> Thrown (UserThrown e)), s\<lparr>calls := calls s @ [(k, v)]\<rparr>)"
    by simp
  then show ?case ..
next
  case (close_nothing s c)
  then have "run (Suc 0) (CLOSE c) s = Some (Thrown TypeError, s)" by simp
  then show ?case ..
next
  case (close_closed s c d)
  then have "run (Suc 0) (CLOSE c) s = Some (Ok, s)" by simp
  then show ?case ..
next
  case (close_async s c d)
  then have "run (Suc 0) (CLOSE c) s
      = Some (Ok, (mark_closed c s)\<lparr>pending_close := pending_close s @ [c]\<rparr>)" by simp
  then show ?case ..
next
  case (close_sync s c d r s')
  then obtain n where "run n (DO_CLOSE c) (mark_closed c s) = Some (r, s')" by blast
  with close_sync.hyps have "run (Suc n) (CLOSE c) s = Some (r, s')" by simp
  then show ?case ..
next
  case (do_close c s r1 s1 r s')
  then obtain n where "run n (EMIT c Close Undefined) s = Some (r1, s1)" by blast
  with do_close.hyps(2) have "run (Suc n) (DO_CLOSE c) s = Some (r, s')" by simp
  then show ?case ..
next
  case (set_failed c err s r s')
  then obtain n where "run n (CLOSE c) (ready_rej c err s) = Some (r, s')" by blast
  then have "run (Suc n) (SET_FAILED c err) s = Some (r, s')" by simp
  then show ?case ..
qed

lemma returns_exec: "returns (\<lambda>n. run n i s) r s' \<longleftrightarrow> exec i s r s'"
proof
  assume "returns (\<lambda>n. run n i s) r s'"
  then obtain n0 where "run n0 i s = Some (r, s')" by (auto simp: returns_def)
  then show "exec i s r s'" by (rule run_exec)
next
  assume "exec i s r s'"
  then obtain n0 where "run n0 i s = Some (r, s')" using exec_run by blast
  then have "\<forall>n\<ge>n0. run n i s = Some (r, s')" by (auto intro: run_mono)
  then show "returns (\<lambda>n. run n i s) r s'" unfolding returns_def ..
qed

lemma exec_deterministic:
  assumes "exec i s r1 s1" and "exec i s r2 s2"
  shows "r1 = r2 \<and> s1 = s2"
proof -
  from assms obtain n1 n2 where "run n1 i s = Some (r1, s1)" "run n2 i s = Some (r2, s2)"
    using exec_run by blast
  then have "run (max n1 n2) i s = Some (r1, s1)" "run (max n1 n2) i s = Some (r2, s2)"
    by (auto intro: run_mono)
  then show ?thesis by simp
qed

section \<open>The close cascade ends\<close>

lemma finite_open_in: "finite D \<Longrightarrow> finite (open_in D s)"
  by (simp add: open_in_def)

lemma open_in_evolves: "evolves s s' \<Longrightarrow> open_in D s' \<subseteq> open_in D s"
  by (auto simp: open_in_def evolvesD(1) dest: evolvesD(2))

lemma card_open_in_evolves:
  "finite D \<Longrightarrow> evolves s s' \<Longrightarrow> card (open_in D s') \<le> card (open_in D s)"
  by (rule card_mono) (simp_all add: finite_open_in open_in_evolves)

lemma card_open_in_mark_closed:
  assumes "finite D" "c \<in> D" "is_component s c" "\<not> is_closed s c"
  shows "card (open_in D (mark_closed c s)) < card (open_in D s)"
proof (rule psubset_card_mono)
  show "finite (open_in D s)" using assms(1) by (rule finite_open_in)
  from assms(2-4) have "c \<in> open_in D s" "c \<notin> open_in D (mark_closed c s)"
    by (simp_all add: open_in_def)
  moreover have "open_in D (mark_closed c s) \<subseteq> open_in D s"
    by (rule open_in_evolves) simp
  ultimately show "open_in D (mark_closed c s) \<subset> open_in D s" by blast
qed

lemma cascade_terminates_bounded:
  assumes fin: "finite D"
  shows "card (open_in D s) \<le> k \<Longrightarrow> confined D s \<Longrightarrow> inside D i \<Longrightarrow> \<exists>r s'. exec i s r s'"
proof (induction k arbitrary: s i rule: less_induct)
  case (less k)
  have closeT: "\<exists>r s'. exec (CLOSE c) s r s'"
    if "card (open_in D s) \<le> k" "confined D s" "c \<in> D" for s c
  proof (cases "get_data s c")
    case None
    then show ?thesis by (blast intro: close_nothing)
  next
    case (Some d)
    show ?thesis
    proof (cases "closed d")
      case True
      with Some show ?thesis by (blast intro: close_closed)
    next
      case False
      note op = this
      show ?thesis
      proof (cases "close_async d")
        case True
        with Some op show ?thesis by (blast intro: close_async)
      next
        case False
        from Some op have "is_component s c" "\<not> is_closed s c"
          by (simp_all add: is_component_def is_closed_def)
        from card_open_in_mark_closed[OF fin that(3) this] that(1)
        have lt: "card (open_in D (mark_closed c s)) < k" by simp
        from that(2) have "confined D (mark_closed c s)"
          by (rule confined_evolves) simp
        from less.IH[OF lt order_refl this, of "DO_CLOSE c"] that(3)
        obtain r s' where "exec (DO_CLOSE c) (mark_closed c s) r s'" by auto
        with Some op False show ?thesis by (blast intro: close_sync)
      qed
    qed
  qed
  have callT: "\<exists>r s'. exec (CALL h v) s r s'"
    if "card (open_in D s) \<le> k" "confined D s" "within D h" for s h v
  proof (cases h)
    case (On_parent_close c)
    show ?thesis
    proof (cases "has_on s c")
      case True
      from closeT[OF that(1,2), of c] that(3) On_parent_close
      obtain r s' where "exec (CLOSE c) s r s'" by auto
      with True On_parent_close show ?thesis by (blast intro: call_parent_close)
    next
      case False
      obtain r s' where "foreign_close c s = (r, s')" by (cases "foreign_close c s")
      with False On_parent_close show ?thesis by (blast intro: call_parent_close_foreign)
    qed
  next
    case (On_child_close p)
    from closeT[OF that(1,2), of p] that(3) On_child_close
    obtain r s' where "exec (CLOSE p) s r s'" by auto
    with On_child_close show ?thesis by (blast intro: call_child_close)
  next
    case (User n thr)
    then show ?thesis by (blast intro: call_user)
  qed (use that(3) in simp_all)
  have dispatchT: "\<exists>r s'. exec (DISPATCH hs v) s r s'"
    if "card (open_in D s) \<le> k" "confined D s" "\<forall>h\<in>set hs. within D h" for s hs v
    using that
  proof (induction hs arbitrary: s)
    case Nil
    show ?case by (blast intro: dispatch_nil)
  next
    case (Cons h hs)
    from callT[OF Cons.prems(1,2), of h v] Cons.prems(3)
    obtain r1 s1 where c: "exec (CALL h v) s r1 s1" by auto
    show ?case
    proof (cases r1)
      case (Thrown e)
      with c show ?thesis by (blast intro: dispatch_thrown)
    next
      case Ok
      from exec_evolves[OF c] have ev: "evolves s s1" .
      from card_open_in_evolves[OF fin ev] Cons.prems(1) have 1: "card (open_in D s1) \<le> k" by simp
      from Cons.prems(2) ev have 2: "confined D s1" by (rule confined_evolves)
      from Cons.prems(3) have 3: "\<forall>h\<in>set hs. within D h" by simp
      from Cons.IH[OF 1 2 3] obtain r s' where "exec (DISPATCH hs v) s1 r s'" by blast
      with c Ok show ?thesis by (blast intro: dispatch_next)
    qed
  qed
  have emitT: "\<exists>r s'. exec (EMIT c Close v) s r s'"
    if "card (open_in D s) \<le> k" "confined D s" "c \<in> D" for s c v
  proof (cases "heap s c")
    case None
    then show ?thesis by (blast intro: emit_nothing)
  next
    case (Some ob)
    from that(2,3) Some have "\<forall>h\<in>set (handlers_for Close (listeners ob)). within D h"
      by (simp add: confined_def listeners_of_heap)
    moreover from that(2) have "confined D (log_emit c Close v s)"
      by (rule confined_evolves) simp
    moreover have "card (open_in D (log_emit c Close v s)) \<le> card (open_in D s)"
      by (rule card_open_in_evolves[OF fin]) simp
    with that(1) have "card (open_in D (log_emit c Close v s)) \<le> k" by simp
    ultimately obtain r s' where
      "exec (DISPATCH (handlers_for Close (listeners ob)) v) (log_emit c Close v s) r s'"
      using dispatchT by blast
    with Some show ?thesis by (blast intro: emit_listeners)
  qed
  show ?case
  proof (cases i)
    case (EMIT c ev v)
    with less.prems emitT[of s c v] show ?thesis by simp
  next
    case (DISPATCH hs v)
    with less.prems dispatchT[of s hs v] show ?thesis by simp
  next
    case (CALL h v)
    with less.prems callT[of s h v] show ?thesis by simp
  next
    case (CLOSE c)
    with less.prems closeT[of s c] show ?thesis by simp
  next
    case (DO_CLOSE c)
    from less.prems DO_CLOSE emitT[of s c Undefined]
    obtain r1 s1 where e: "exec (EMIT c Close Undefined) s r1 s1" by auto
    obtain r s' where "try_finally r1 (cleanup c s1) = (r, s')"
      by (cases "try_finally r1 (cleanup c s1)")
    with e DO_CLOSE show ?thesis by (blast intro: do_close)
  next
    case (SET_FAILED c err)
    with less.prems show ?thesis by simp
  qed
qed

lemma cascade_terminates:
  "finite D \<Longrightarrow> confined D s \<Longrightarrow> inside D i \<Longrightarrow> \<exists>r s'. exec i s r s'"
  using cascade_terminates_bounded[OF _ order_refl] by blast

lemma exec_emissions_frame:
  "exec i s r s' \<Longrightarrow> confined D s \<Longrightarrow> inside D i \<Longrightarrow> is_closed s c \<Longrightarrow>
   i \<noteq> DO_CLOSE c \<Longrightarrow> (\<forall>v. i \<noteq> EMIT c Close v) \<Longrightarrow>
   emissions s' c Close = emissions s c Close"
proof (induction rule: exec.induct)
  case (emit_listeners s a ob ev v r s')
  from emit_listeners.prems have ev: "ev = Close" "a \<in> D" "a \<noteq> c" by auto
  with emit_listeners.prems(1) emit_listeners.hyps(1)
  have "\<forall>h \<in> set (handlers_for ev (listeners ob)). within D h"
    by (simp add: confined_def listeners_of_heap)
  moreover from emit_listeners.prems(1) have "confined D (log_emit a ev v s)"
    by (rule confined_evolves) simp
  moreover from emit_listeners.prems(3) have "is_closed (log_emit a ev v s) c" by simp
  ultimately have "emissions s' c Close = emissions (log_emit a ev v s) c Close"
    using emit_listeners.IH by simp
  with ev show ?case by simp
next
  case (dispatch_next h v s s1 hs r s')
  then have 1: "emissions s1 c Close = emissions s c Close" by simp
  from exec_evolves[OF dispatch_next.hyps(1)] have ev: "evolves s s1" .
  from dispatch_next.prems(1) ev have "confined D s1" by (rule confined_evolves)
  moreover from ev dispatch_next.prems(3) have "is_closed s1 c" by (rule evolvesD(2))
  ultimately have "emissions s' c Close = emissions s1 c Close"
    using dispatch_next by simp
  with 1 show ?case by simp
next
  case (call_parent_close_foreign s child r s' v)
  then have "s' = snd (foreign_close child s)" by simp
  then show ?case by simp
next
  case (close_sync s c' d r s')
  from close_sync.prems close_sync.hyps have "c' \<noteq> c"
    by (auto simp: is_closed_def)
  moreover from close_sync.prems(1) have "confined D (mark_closed c' s)"
    by (rule confined_evolves) simp
  ultimately have "emissions s' c Close = emissions (mark_closed c' s) c Close"
    using close_sync by simp
  then show ?case by simp
next
  case (do_close c' s r1 s1 r s')
  then have "c' \<noteq> c" by simp
  with do_close have 1: "emissions s1 c Close = emissions s c Close" by simp
  from do_close(2) have "s' = snd (cleanup c' s1)"
    by (metis snd_conv snd_try_finally)
  with 1 show ?case by simp
qed simp_all

lemma obs_unhandled [simp]:
  "parent_of (s\<lparr>unhandled := x\<rparr>) = parent_of s"
  "children (s\<lparr>unhandled := x\<rparr>) = children s"
  "has_hook (s\<lparr>unhandled := x\<rparr>) = has_hook s"
  "is_component (s\<lparr>unhandled := x\<rparr>) = is_component s"
  "is_closed (s\<lparr>unhandled := x\<rparr>) = is_closed s"
  "subscriptions (s\<lparr>unhandled := x\<rparr>) = subscriptions s"
  "readiness (s\<lparr>unhandled := x\<rparr>) = readiness s"
  "emissions (s\<lparr>unhandled := x\<rparr>) = emissions s"
  by (auto simp: obs_defs emissions_def fun_eq_iff split: option.splits)

text \<open>What \<open>do_close\<close> does for a component whose \<open>closed\<close> flag is set, in a confined cascade.\<close>

lemma do_close_effect:
  assumes "finite D" "confined D s" "c \<in> D" "is_closed s c"
  shows "\<exists>r1 s1 r. exec (EMIT c Close Undefined) s r1 s1
           \<and> exec (DO_CLOSE c) s r (snd (cleanup c s1))
           \<and> try_finally r1 (cleanup c s1) = (r, snd (cleanup c s1))
           \<and> same_link c s s1 \<and> is_closed s1 c \<and> quiet D s s1
           \<and> emissions s1 c Close = Suc (emissions s c Close)"
proof -
  from cascade_terminates[OF assms(1,2), of "EMIT c Close Undefined"] assms(3)
  obtain r1 s1 where e: "exec (EMIT c Close Undefined) s r1 s1" by auto
  let ?s0 = "log_emit c Close Undefined s"
  from assms(4) have comp: "is_component s c"
    by (auto simp: is_closed_def is_component_def split: option.splits)
  from e have "\<exists>ob::obj. heap s c = Some ob
      \<and> exec (DISPATCH (handlers_for Close (listeners ob)) Undefined) ?s0 r1 s1"
  proof (rule exec_EMIT_E)
    assume "heap s c = None"
    with comp show ?thesis by (simp add: is_component_def get_data_def)
  next
    fix ob :: obj
    assume "heap s c = Some ob"
      "exec (DISPATCH (handlers_for Close (listeners ob)) Undefined) ?s0 r1 s1"
    then show ?thesis by blast
  qed
  then obtain ob :: obj where ob: "heap s c = Some ob"
    and ex: "exec (DISPATCH (handlers_for Close (listeners ob)) Undefined) ?s0 r1 s1" by blast
  from assms(4) have cl0: "is_closed ?s0 c" by simp
  from assms(2) have conf0: "confined D ?s0" by (rule confined_evolves) simp
  from assms(2,3) ob have ins: "inside D (DISPATCH (handlers_for Close (listeners ob)) Undefined)"
    by (simp add: confined_def listeners_of_heap)
  from exec_closed_frame[OF ex cl0] have "same_link c ?s0 s1" by simp
  then have sl: "same_link c s s1" using same_link_log_emit same_link_trans by blast
  from exec_evolves[OF ex] cl0 have cl1: "is_closed s1 c" by (rule evolvesD(2))
  from exec_emissions_frame[OF ex conf0 ins cl0]
  have em: "emissions s1 c Close = Suc (emissions s c Close)" by simp
  from exec_confined[OF e assms(2)] assms(3) have q: "quiet D s s1" by simp
  obtain r s' where tf: "try_finally r1 (cleanup c s1) = (r, s')"
    by (cases "try_finally r1 (cleanup c s1)")
  then have s': "s' = snd (cleanup c s1)" by (metis snd_conv snd_try_finally)
  from e tf have "exec (DO_CLOSE c) s r s'" by (rule do_close)
  with e tf s' sl cl1 q em show ?thesis by blast
qed

section \<open>Closing once, and cleaning up\<close>

lemma returns_close: "returns (\<lambda>n. close n c s) r s' \<longleftrightarrow> exec (CLOSE c) s r s'"
  by (simp add: close_def returns_exec)

lemma returns_emit: "returns (\<lambda>n. emit n a ev v s) r s' \<longleftrightarrow> exec (EMIT a ev v) s r s'"
  by (simp add: emit_def returns_exec)

lemma returns_set_failed:
  "returns (\<lambda>n. set_failed n c err s) r s' \<longleftrightarrow> exec (SET_FAILED c err) s r s'"
  by (simp add: set_failed_def returns_exec)

text \<open>The hook's promise is fulfilled: \<open>do_close\<close> runs as a promise callback, so what it
  throws goes to the unhandled rejections.\<close>

lemma settled_returns:
  assumes "c \<in> set (pending_close s)"
    and "exec (DO_CLOSE c) (s\<lparr>pending_close := remove1 c (pending_close s)\<rparr>) r s'"
  shows "returns (\<lambda>n. close_async_settled n c None s) Ok
           (case r of Ok \<Rightarrow> s' | Thrown e \<Rightarrow> s'\<lparr>unhandled := unhandled s' @ [e]\<rparr>)"
proof -
  from assms(2) obtain n0 where
    "\<forall>n\<ge>n0. run n (DO_CLOSE c) (s\<lparr>pending_close := remove1 c (pending_close s)\<rparr>) = Some (r, s')"
    unfolding returns_exec[symmetric] returns_def by blast
  with assms(1) have "\<forall>n\<ge>n0. close_async_settled n c None s =
      Some (Ok, case r of Ok \<Rightarrow> s' | Thrown e \<Rightarrow> s'\<lparr>unhandled := unhandled s' @ [e]\<rparr>)"
    by (simp add: close_async_settled_def do_close_def unhandled_rejection_def split: outcome.splits)
  then show ?thesis unfolding returns_def ..
qed

lemma obs_unhandled_case [simp]:
  "parent_of (case r of Ok \<Rightarrow> s' | Thrown e \<Rightarrow> s'\<lparr>unhandled := f e\<rparr>) = parent_of s'"
  "children (case r of Ok \<Rightarrow> s' | Thrown e \<Rightarrow> s'\<lparr>unhandled := f e\<rparr>) = children s'"
  "is_closed (case r of Ok \<Rightarrow> s' | Thrown e \<Rightarrow> s'\<lparr>unhandled := f e\<rparr>) = is_closed s'"
  "subscriptions (case r of Ok \<Rightarrow> s' | Thrown e \<Rightarrow> s'\<lparr>unhandled := f e\<rparr>) = subscriptions s'"
  "emissions (case r of Ok \<Rightarrow> s' | Thrown e \<Rightarrow> s'\<lparr>unhandled := f e\<rparr>) = emissions s'"
  "readiness (case r of Ok \<Rightarrow> s' | Thrown e \<Rightarrow> s'\<lparr>unhandled := f e\<rparr>) = readiness s'"
  "listeners_of (case r of Ok \<Rightarrow> s' | Thrown e \<Rightarrow> s'\<lparr>unhandled := f e\<rparr>) a = listeners_of s' a"
  by (simp_all split: outcome.splits)

lemma close_again: "is_closed s c \<Longrightarrow> close (Suc m) c s = Some (Ok, s)"
  by (auto simp: close_Suc is_closed_def split: option.splits)

text \<open>\<open>close()\<close> of an open component without hook, in a confined cascade.\<close>

lemma close_sync_effect:
  assumes "finite D" "confined D s" "c \<in> D"
    and "is_component s c" "\<not> is_closed s c" "\<not> has_hook s c"
  shows "\<exists>r1 s1 r. exec (EMIT c Close Undefined) (mark_closed c s) r1 s1
           \<and> exec (CLOSE c) s r (snd (cleanup c s1))
           \<and> try_finally r1 (cleanup c s1) = (r, snd (cleanup c s1))
           \<and> same_link c s s1 \<and> is_closed s1 c \<and> quiet D (mark_closed c s) s1
           \<and> emissions s1 c Close = Suc (emissions s c Close)"
proof -
  from assms(2) have "confined D (mark_closed c s)" by (rule confined_evolves) simp
  moreover from assms(4) have "is_closed (mark_closed c s) c" by simp
  ultimately obtain r1 s1 r where
    e: "exec (EMIT c Close Undefined) (mark_closed c s) r1 s1"
    and d: "exec (DO_CLOSE c) (mark_closed c s) r (snd (cleanup c s1))"
    and tf: "try_finally r1 (cleanup c s1) = (r, snd (cleanup c s1))"
    and sl: "same_link c (mark_closed c s) s1" and cl: "is_closed s1 c"
    and q: "quiet D (mark_closed c s) s1"
    and em: "emissions s1 c Close = Suc (emissions (mark_closed c s) c Close)"
    using do_close_effect[OF assms(1) _ assms(3)] by blast
  from assms(4-6) obtain d' where "get_data s c = Some d'" "\<not> closed d'" "\<not> close_async d'"
    by (auto simp: is_component_def is_closed_def has_hook_def)
  with d have "exec (CLOSE c) s r (snd (cleanup c s1))" by (blast intro: close_sync)
  moreover from sl have "same_link c s s1" using same_link_simple(2) same_link_trans by blast
  ultimately show ?thesis using e tf cl q em by auto
qed

text \<open>\<open>close()\<close> of an open component with a \<open>close_async\<close> hook, and the hook's promise being
  fulfilled right after.\<close>

lemma close_hooked_effect:
  assumes "finite D" "confined D s" "c \<in> D"
    and "is_component s c" "\<not> is_closed s c" "has_hook s c"
  defines "s1 \<equiv> (mark_closed c s)\<lparr>pending_close := pending_close s @ [c]\<rparr>"
  defines "s0 \<equiv> s1\<lparr>pending_close := remove1 c (pending_close s1)\<rparr>"
  shows "exec (CLOSE c) s Ok s1"
    and "\<exists>r1 sa r. exec (EMIT c Close Undefined) s0 r1 sa
           \<and> returns (\<lambda>n. close_async_settled n c None s1) Ok
               (case r of Ok \<Rightarrow> snd (cleanup c sa)
                | Thrown e \<Rightarrow> (snd (cleanup c sa))\<lparr>unhandled := unhandled (snd (cleanup c sa)) @ [e]\<rparr>)
           \<and> try_finally r1 (cleanup c sa) = (r, snd (cleanup c sa))
           \<and> same_link c s sa \<and> is_closed sa c \<and> quiet D s0 sa
           \<and> emissions sa c Close = Suc (emissions s c Close)"
proof -
  from assms(4-6) obtain d' where "get_data s c = Some d'" "\<not> closed d'" "close_async d'"
    by (auto simp: is_component_def is_closed_def has_hook_def)
  then show "exec (CLOSE c) s Ok s1" unfolding s1_def by (rule close_async)
  have "evolves (mark_closed c s) s0" by (simp add: s0_def s1_def)
  then have ev: "evolves s s0" by (rule evolves_trans[OF evolves_mark_closed])
  with assms(2) have "confined D s0" by (rule confined_evolves)
  moreover from assms(4) have "is_closed s0 c" by (simp add: s0_def s1_def)
  ultimately obtain r1 sa r where
    e: "exec (EMIT c Close Undefined) s0 r1 sa"
    and d: "exec (DO_CLOSE c) s0 r (snd (cleanup c sa))"
    and tf: "try_finally r1 (cleanup c sa) = (r, snd (cleanup c sa))"
    and sl: "same_link c s0 sa" and cl: "is_closed sa c" and q: "quiet D s0 sa"
    and em: "emissions sa c Close = Suc (emissions s0 c Close)"
    using do_close_effect[OF assms(1) _ assms(3)] by blast
  have "c \<in> set (pending_close s1)" by (simp add: s1_def)
  from settled_returns[OF this d[unfolded s0_def]]
  have "returns (\<lambda>n. close_async_settled n c None s1) Ok
      (case r of Ok \<Rightarrow> snd (cleanup c sa)
       | Thrown e \<Rightarrow> (snd (cleanup c sa))\<lparr>unhandled := unhandled (snd (cleanup c sa)) @ [e]\<rparr>)" .
  moreover have "same_link c s s0"
    by (simp add: same_link_def s0_def s1_def)
  from this sl have "same_link c s sa" by (rule same_link_trans)
  moreover have "emissions s0 c Close = emissions s c Close" by (simp add: s0_def s1_def)
  ultimately show "\<exists>r1 sa r. exec (EMIT c Close Undefined) s0 r1 sa
           \<and> returns (\<lambda>n. close_async_settled n c None s1) Ok
               (case r of Ok \<Rightarrow> snd (cleanup c sa)
                | Thrown e \<Rightarrow> (snd (cleanup c sa))\<lparr>unhandled := unhandled (snd (cleanup c sa)) @ [e]\<rparr>)
           \<and> try_finally r1 (cleanup c sa) = (r, snd (cleanup c sa))
           \<and> same_link c s sa \<and> is_closed sa c \<and> quiet D s0 sa
           \<and> emissions sa c Close = Suc (emissions s c Close)"
    using e tf cl q em by auto
qed

lemma detached:
  assumes "same_link c s s1" and "is_closed s1 c"
    and "\<forall>p. parent_of s c = Some p \<longrightarrow> c \<in> set (children s p)"
  shows "fst (cleanup c s1) = Ok"
    and "parent_of (snd (cleanup c s1)) c = None"
    and "\<forall>p. parent_of s c = Some p \<longrightarrow> c \<notin> set (children (snd (cleanup c s1)) p)"
    and "listeners_of (snd (cleanup c s1)) c = []"
    and "subscriptions (snd (cleanup c s1)) c = []"
    and "\<forall>(t, l) \<in> set (subscriptions s c). l \<notin> fst ` set (listeners_of (snd (cleanup c s1)) t)"
proof -
  from assms(2) have comp: "is_component s1 c"
    by (auto simp: is_closed_def is_component_def split: option.splits)
  from assms(1) have eq: "parent_of s1 c = parent_of s c" "subscriptions s1 c = subscriptions s c"
    "\<forall>p. (c \<in> set (children s1 p)) = (c \<in> set (children s p))"
    by (simp_all add: same_link_def)
  with assms(3) have link: "\<forall>p. parent_of s1 c = Some p \<longrightarrow> c \<in> set (children s1 p)" by simp
  from cleanup_linked[OF comp link] eq
  show "fst (cleanup c s1) = Ok"
    and "parent_of (snd (cleanup c s1)) c = None"
    and "\<forall>p. parent_of s c = Some p \<longrightarrow> c \<notin> set (children (snd (cleanup c s1)) p)"
    and "listeners_of (snd (cleanup c s1)) c = []"
    and "subscriptions (snd (cleanup c s1)) c = []"
    and "\<forall>(t, l) \<in> set (subscriptions s c). l \<notin> fst ` set (listeners_of (snd (cleanup c s1)) t)"
    by simp_all
qed

text \<open>
  Claim C5. Let \<open>c\<close> be an open component in a finite set \<open>D\<close> of objects that the close
  cascade cannot leave: every \<open>'close'\<close> listener on a member of \<open>D\<close> is a listener of the
  caller or a cascade listener of \<open>bind_child_to_parent\<close> for a member of \<open>D\<close> (so none
  relays \<open>'close'\<close>, as a listener of \<open>link_event\<close> would). Then the first \<open>close()\<close>
  returns, and every further \<open>close()\<close> returns at once and leaves the whole state as it
  is. If \<open>c\<close> has no \<open>close_async\<close> hook, the first call has emitted \<open>'close'\<close> on \<open>c\<close>
  exactly once and, \<open>c\<close> being in the child set of its parent, has detached it. If \<open>c\<close>
  has the hook, the first call has emitted and detached nothing when it returns; when
  the promise of the hook is then fulfilled, \<open>'close'\<close> is emitted on \<open>c\<close> exactly once,
  \<open>c\<close> is detached, and \<open>close()\<close> still does nothing.
\<close>

theorem close_idempotent:
  assumes "finite D" and "confined D s" and "c \<in> D"
    and "is_component s c" and "\<not> is_closed s c"
  shows "\<exists>r s1. returns (\<lambda>n. close n c s) r s1
       \<and> (\<forall>m. close (Suc m) c s1 = Some (Ok, s1))
       \<and> (\<not> has_hook s c \<longrightarrow>
            emissions s1 c Close = Suc (emissions s c Close)
            \<and> ((\<forall>p. parent_of s c = Some p \<longrightarrow> c \<in> set (children s p)) \<longrightarrow>
                 parent_of s1 c = None
                 \<and> (\<forall>p. parent_of s c = Some p \<longrightarrow> c \<notin> set (children s1 p))))
       \<and> (has_hook s c \<longrightarrow>
            emissions s1 c Close = emissions s c Close \<and> parent_of s1 c = parent_of s c
            \<and> (\<exists>s2. returns (\<lambda>n. close_async_settled n c None s1) Ok s2
                 \<and> emissions s2 c Close = Suc (emissions s c Close)
                 \<and> ((\<forall>p. parent_of s c = Some p \<longrightarrow> c \<in> set (children s p)) \<longrightarrow>
                      parent_of s2 c = None
                      \<and> (\<forall>p. parent_of s c = Some p \<longrightarrow> c \<notin> set (children s2 p)))
                 \<and> (\<forall>m. close (Suc m) c s2 = Some (Ok, s2))))"
proof (cases "has_hook s c")
  case False
  from close_sync_effect[OF assms False] obtain s1 r where
    c: "exec (CLOSE c) s r (snd (cleanup c s1))"
    and sl: "same_link c s s1" and cl: "is_closed s1 c"
    and em: "emissions s1 c Close = Suc (emissions s c Close)"
    by blast
  let ?s = "snd (cleanup c s1)"
  from c have "returns (\<lambda>n. close n c s) r ?s" by (simp add: returns_close)
  moreover from cl have "\<forall>m. close (Suc m) c ?s = Some (Ok, ?s)" by (simp add: close_again)
  moreover from em have "emissions ?s c Close = Suc (emissions s c Close)" by simp
  moreover have "parent_of ?s c = None \<and> (\<forall>p. parent_of s c = Some p \<longrightarrow> c \<notin> set (children ?s p))"
    if "\<forall>p. parent_of s c = Some p \<longrightarrow> c \<in> set (children s p)"
    using detached(2,3)[OF sl cl that] by simp
  ultimately show ?thesis using False by blast
next
  case True
  let ?s1 = "(mark_closed c s)\<lparr>pending_close := pending_close s @ [c]\<rparr>"
  from close_hooked_effect[OF assms True] obtain sa r where
    c: "exec (CLOSE c) s Ok ?s1"
    and ret: "returns (\<lambda>n. close_async_settled n c None ?s1) Ok
               (case r of Ok \<Rightarrow> snd (cleanup c sa)
                | Thrown e \<Rightarrow> (snd (cleanup c sa))\<lparr>unhandled := unhandled (snd (cleanup c sa)) @ [e]\<rparr>)"
    and sl: "same_link c s sa" and cl: "is_closed sa c"
    and em: "emissions sa c Close = Suc (emissions s c Close)"
    by blast
  let ?s2 = "case r of Ok \<Rightarrow> snd (cleanup c sa)
                | Thrown e \<Rightarrow> (snd (cleanup c sa))\<lparr>unhandled := unhandled (snd (cleanup c sa)) @ [e]\<rparr>"
  from c have 1: "returns (\<lambda>n. close n c s) Ok ?s1" by (simp add: returns_close)
  from assms(4) have 2: "\<forall>m. close (Suc m) c ?s1 = Some (Ok, ?s1)"
    by (intro allI close_again) simp
  have 3: "emissions ?s1 c Close = emissions s c Close \<and> parent_of ?s1 c = parent_of s c"
    by simp
  from em have 4: "emissions ?s2 c Close = Suc (emissions s c Close)" by simp
  from cl have 5: "\<forall>m. close (Suc m) c ?s2 = Some (Ok, ?s2)"
    by (intro allI close_again) simp
  have 6: "parent_of ?s2 c = None \<and> (\<forall>p. parent_of s c = Some p \<longrightarrow> c \<notin> set (children ?s2 p))"
    if "\<forall>p. parent_of s c = Some p \<longrightarrow> c \<in> set (children s p)"
    using detached(2,3)[OF sl cl that] by simp
  from 1 2 3 ret 4 5 6 True show ?thesis by blast
qed

text \<open>
  Claim C7. Let \<open>c\<close> be an open component that is in the child set of its parent (if it
  has one), in a finite set \<open>D\<close> that the close cascade cannot leave. Without a
  \<open>close_async\<close> hook, \<open>close()\<close> returns what the dispatch of \<open>'close'\<close> returned or threw,
  in the state that the dispatch left and the cleanup then changed: \<open>c\<close> has no parent
  and is in no child set of it, no listener is registered on \<open>c\<close>, and every subscription
  that \<open>c\<close> made through its registry is removed from its target. With the hook, \<open>close()\<close>
  returns before any of this: listeners, parent and subscriptions of \<open>c\<close> are what they
  were; the same dispatch and cleanup happen when the promise of the hook is fulfilled,
  an exception of a listener then being an unhandled rejection.
\<close>

theorem close_cleans_up:
  assumes "finite D" and "confined D s" and "c \<in> D"
    and "is_component s c" and "\<not> is_closed s c"
    and "\<forall>p. parent_of s c = Some p \<longrightarrow> c \<in> set (children s p)"
  shows "(\<not> has_hook s c \<longrightarrow>
           (\<exists>r s1. returns (\<lambda>n. emit n c Close Undefined (mark_closed c s)) r s1
              \<and> returns (\<lambda>n. close n c s) r (snd (cleanup c s1))
              \<and> parent_of (snd (cleanup c s1)) c = None
              \<and> (\<forall>p. parent_of s c = Some p \<longrightarrow> c \<notin> set (children (snd (cleanup c s1)) p))
              \<and> listeners_of (snd (cleanup c s1)) c = []
              \<and> subscriptions (snd (cleanup c s1)) c = []
              \<and> (\<forall>(t, l) \<in> set (subscriptions s c).
                    l \<notin> fst ` set (listeners_of (snd (cleanup c s1)) t))))
       \<and> (has_hook s c \<longrightarrow>
           (\<exists>s0 r s1 s'. returns (\<lambda>n. close n c s) Ok s0
              \<and> listeners_of s0 c = listeners_of s c \<and> parent_of s0 c = parent_of s c
              \<and> subscriptions s0 c = subscriptions s c
              \<and> returns (\<lambda>n. emit n c Close Undefined
                                 (s0\<lparr>pending_close := remove1 c (pending_close s0)\<rparr>)) r s1
              \<and> returns (\<lambda>n. close_async_settled n c None s0) Ok s'
              \<and> s' = (case r of Ok \<Rightarrow> snd (cleanup c s1)
                       | Thrown e \<Rightarrow> (snd (cleanup c s1))
                                       \<lparr>unhandled := unhandled (snd (cleanup c s1)) @ [e]\<rparr>)
              \<and> parent_of s' c = None
              \<and> (\<forall>p. parent_of s c = Some p \<longrightarrow> c \<notin> set (children s' p))
              \<and> listeners_of s' c = []
              \<and> subscriptions s' c = []
              \<and> (\<forall>(t, l) \<in> set (subscriptions s c). l \<notin> fst ` set (listeners_of s' t))))"
proof (cases "has_hook s c")
  case False
  from close_sync_effect[OF assms(1-5) False] obtain r1 s1 r where
    e: "exec (EMIT c Close Undefined) (mark_closed c s) r1 s1"
    and c: "exec (CLOSE c) s r (snd (cleanup c s1))"
    and tf: "try_finally r1 (cleanup c s1) = (r, snd (cleanup c s1))"
    and sl: "same_link c s s1" and cl: "is_closed s1 c"
    by blast
  note d = detached[OF sl cl assms(6)]
  from d(1) tf have "r = r1"
    by (cases "cleanup c s1") (auto simp: try_finally_def)
  with e c have "returns (\<lambda>n. emit n c Close Undefined (mark_closed c s)) r s1"
    "returns (\<lambda>n. close n c s) r (snd (cleanup c s1))"
    by (simp_all add: returns_emit returns_close)
  with d(2-6) False show ?thesis by blast
next
  case True
  let ?s0 = "(mark_closed c s)\<lparr>pending_close := pending_close s @ [c]\<rparr>"
  from close_hooked_effect[OF assms(1-5) True] obtain r1 s1 r where
    c: "exec (CLOSE c) s Ok ?s0"
    and e: "exec (EMIT c Close Undefined) (?s0\<lparr>pending_close := remove1 c (pending_close ?s0)\<rparr>) r1 s1"
    and ret: "returns (\<lambda>n. close_async_settled n c None ?s0) Ok
               (case r of Ok \<Rightarrow> snd (cleanup c s1)
                | Thrown e \<Rightarrow> (snd (cleanup c s1))\<lparr>unhandled := unhandled (snd (cleanup c s1)) @ [e]\<rparr>)"
    and tf: "try_finally r1 (cleanup c s1) = (r, snd (cleanup c s1))"
    and sl: "same_link c s s1" and cl: "is_closed s1 c"
    by blast
  let ?s' = "case r of Ok \<Rightarrow> snd (cleanup c s1)
                | Thrown e \<Rightarrow> (snd (cleanup c s1))\<lparr>unhandled := unhandled (snd (cleanup c s1)) @ [e]\<rparr>"
  note d = detached[OF sl cl assms(6)]
  from d(1) tf have "r = r1"
    by (cases "cleanup c s1") (auto simp: try_finally_def)
  with e have 1: "returns (\<lambda>n. emit n c Close Undefined
                                 (?s0\<lparr>pending_close := remove1 c (pending_close ?s0)\<rparr>)) r s1"
    by (simp only: returns_emit)
  from c have 2: "returns (\<lambda>n. close n c s) Ok ?s0" by (simp add: returns_close)
  have "listeners_of ?s0 c = listeners_of s c" by (simp add: mark_closed_def)
  then have 3: "listeners_of ?s0 c = listeners_of s c \<and> parent_of ?s0 c = parent_of s c
      \<and> subscriptions ?s0 c = subscriptions s c"
    by simp
  from d(2-6) have 4: "parent_of ?s' c = None
      \<and> (\<forall>p. parent_of s c = Some p \<longrightarrow> c \<notin> set (children ?s' p))
      \<and> listeners_of ?s' c = [] \<and> subscriptions ?s' c = []
      \<and> (\<forall>(t, l) \<in> set (subscriptions s c). l \<notin> fst ` set (listeners_of ?s' t))"
    by simp
  from 1 2 3 4 ret True show ?thesis by blast
qed

section \<open>The children of a closing component\<close>

lemma listeners_of_mark_closed [simp]: "listeners_of (mark_closed c s) a = listeners_of s a"
  by (simp add: mark_closed_def)




section \<open>Readiness: what close and failed do to it\<close>

lemma aggregate_of_iff [simp]:
  "aggregate_of p = Failed \<longleftrightarrow> (\<exists>e. p = Rejected e)"
  "aggregate_of p = Ready \<longleftrightarrow> p = Fulfilled"
  "aggregate_of p = Waiting \<longleftrightarrow> p = Pending"
  by (cases p; simp)+

lemma all_of_Failed:
  "all_of (a # map g fs) = Failed \<longleftrightarrow> a = Failed \<or> (\<exists>f\<in>set fs. g f = Failed)"
  by (auto simp: all_of_def eq_commute[of Failed])

lemma all_of_Ready:
  "all_of (a # map g fs) = Ready \<longleftrightarrow> a = Ready \<and> (\<forall>f\<in>set fs. g f = Ready)"
  by (auto simp: all_of_def eq_commute[of Failed])

lemma settled_Failed_iff:
  "settled s f = Failed \<longleftrightarrow> (\<exists>a\<in>set (members f). \<exists>e. readiness s a = Rejected e)"
proof (induction f)
  case (All c fs)
  have "settled s (All c fs) = Failed \<longleftrightarrow>
      (\<exists>e. readiness s c = Rejected e) \<or> (\<exists>f\<in>set fs. settled s f = Failed)"
    by (simp add: all_of_Failed)
  also have "\<dots> \<longleftrightarrow> (\<exists>e. readiness s c = Rejected e)
      \<or> (\<exists>f\<in>set fs. \<exists>a\<in>set (members f). \<exists>e. readiness s a = Rejected e)"
    using All.IH by blast
  also have "\<dots> \<longleftrightarrow> (\<exists>a\<in>set (members (All c fs)). \<exists>e. readiness s a = Rejected e)"
    by auto
  finally show ?case .
qed

lemma settled_Ready_iff:
  "settled s f = Ready \<longleftrightarrow> (\<forall>a\<in>set (members f). readiness s a = Fulfilled)"
proof (induction f)
  case (All c fs)
  have "settled s (All c fs) = Ready \<longleftrightarrow>
      readiness s c = Fulfilled \<and> (\<forall>f\<in>set fs. settled s f = Ready)"
    by (simp add: all_of_Ready)
  also have "\<dots> \<longleftrightarrow> readiness s c = Fulfilled
      \<and> (\<forall>f\<in>set fs. \<forall>a\<in>set (members f). readiness s a = Fulfilled)"
    using All.IH by blast
  also have "\<dots> \<longleftrightarrow> (\<forall>a\<in>set (members (All c fs)). readiness s a = Fulfilled)"
    by auto
  finally show ?case .
qed

lemma settled_cong: "(\<forall>a. readiness s' a = readiness s a) \<Longrightarrow> settled s' f = settled s f"
proof (induction f)
  case (All c fs)
  then show ?case by (simp cong: map_cong)
qed

text \<open>
  Claim C4. \<open>close()\<close> never settles a readiness. Let \<open>c\<close> be in a finite set \<open>D\<close> that the close
  cascade cannot leave. Then \<open>close()\<close> on \<open>c\<close> returns and the readiness of every component
  is what it was, and so is every \<open>wait_for_ready()\<close> future. In particular, when the
  readiness of \<open>c\<close> is pending, a future that waits for \<open>c\<close> (one of \<open>c\<close> itself or of an
  ancestor) is not ready after the call, and it has failed only if one of its members had
  been rejected before: the call rejects nothing. The same holds once the promise of a
  \<open>close_async\<close> hook of \<open>c\<close> is fulfilled.
\<close>

theorem close_keeps_readiness:
  assumes "finite D" and "confined D s" and "c \<in> D"
  shows "\<exists>r s'. returns (\<lambda>n. close n c s) r s'
       \<and> (\<forall>a. readiness s' a = readiness s a)
       \<and> (\<forall>f. settled s' f = settled s f)
       \<and> (readiness s c = Pending \<longrightarrow>
            (\<forall>f. c \<in> set (members f) \<longrightarrow>
                  settled s' f \<noteq> Ready
                  \<and> (settled s' f = Failed \<longrightarrow>
                        (\<exists>a\<in>set (members f). \<exists>e. readiness s a = Rejected e))))
       \<and> (c \<in> set (pending_close s') \<longrightarrow>
            (\<exists>s2. returns (\<lambda>n. close_async_settled n c None s') Ok s2
                  \<and> (\<forall>a. readiness s2 a = readiness s a)))"
proof -
  from cascade_terminates[OF assms(1,2), of "CLOSE c"] assms(3)
  obtain r s' where e: "exec (CLOSE c) s r s'" by auto
  then have 1: "returns (\<lambda>n. close n c s) r s'" by (simp add: returns_close)
  from exec_confined[OF e assms(2)] assms(3) have rd: "\<forall>a. readiness s' a = readiness s a"
    by (simp add: quiet_def)
  then have st: "\<forall>f. settled s' f = settled s f" by (simp add: settled_cong)
  have 3: "settled s' f \<noteq> Ready
      \<and> (settled s' f = Failed \<longrightarrow> (\<exists>a\<in>set (members f). \<exists>e. readiness s a = Rejected e))"
    if "readiness s c = Pending" "c \<in> set (members f)" for f
  proof -
    from that have "\<exists>a\<in>set (members f). readiness s a \<noteq> Fulfilled"
      by (intro bexI[of _ c]) simp_all
    then have "settled s f \<noteq> Ready" by (simp add: settled_Ready_iff)
    with st show ?thesis by (simp add: settled_Failed_iff)
  qed
  have 4: "\<exists>s2. returns (\<lambda>n. close_async_settled n c None s') Ok s2
                  \<and> (\<forall>a. readiness s2 a = readiness s a)"
    if p: "c \<in> set (pending_close s')"
  proof -
    let ?s0 = "s'\<lparr>pending_close := remove1 c (pending_close s')\<rparr>"
    from assms(2) exec_evolves[OF e] have "confined D s'" by (rule confined_evolves)
    then have c0: "confined D ?s0" by (rule confined_evolves) simp
    from cascade_terminates[OF assms(1) c0, of "DO_CLOSE c"] assms(3)
    obtain r2 s2 where d: "exec (DO_CLOSE c) ?s0 r2 s2" by auto
    from exec_confined[OF d c0] assms(3) have "\<forall>a. readiness s2 a = readiness ?s0 a"
      by (simp add: quiet_def)
    with rd have "\<forall>a. readiness (case r2 of Ok \<Rightarrow> s2
        | Thrown e \<Rightarrow> s2\<lparr>unhandled := unhandled s2 @ [e]\<rparr>) a = readiness s a"
      by simp
    with settled_returns[OF p d] show ?thesis by blast
  qed
  from 1 rd st 3 4 show ?thesis by blast
qed

lemma readiness_ready_rej:
  "is_component s c \<Longrightarrow>
   readiness (ready_rej c err s) c
     = (if readiness s c = Pending then Rejected err else readiness s c)"
  by (auto simp: readiness_def is_component_def split: option.splits)

text \<open>
  Claim C6. Let \<open>c\<close> be a component in a finite set \<open>D\<close> that the close cascade cannot leave.
  Then \<open>failed(err)\<close> returns; it is \<open>ready_rej(err)\<close> followed by \<open>close()\<close>; the readiness
  of \<open>c\<close> is then rejected with \<open>err\<close> if it was pending and is what it was otherwise (a
  readiness that \<open>ready()\<close> has fulfilled stays fulfilled); and \<open>c\<close> is closed. An
  \<open>'error'\<close> event emitted on \<open>c\<close>, whose first \<open>'error'\<close> listener is the \<open>set_failed\<close> that the
  constructor registered, runs \<open>failed\<close> with the argument of the event and then the
  other listeners.
\<close>

theorem failed_rejects_pending:
  assumes "finite D" and "confined D s" and "c \<in> D" and "is_component s c"
  shows "\<exists>r s'. returns (\<lambda>n. set_failed n c err s) r s'
       \<and> returns (\<lambda>n. close n c (ready_rej c err s)) r s'
       \<and> readiness s' c = (if readiness s c = Pending then Rejected err else readiness s c)
       \<and> is_closed s' c
       \<and> (\<forall>hs n. handlers_for Error (listeners_of s c) = Set_failed c # hs \<longrightarrow>
            emit (Suc (Suc (Suc n))) c Error err s =
              (case set_failed n c err (log_emit c Error err s) of
                 None \<Rightarrow> None
               | Some (Thrown e, s1) \<Rightarrow> Some (Thrown e, s1)
               | Some (Ok, s1) \<Rightarrow> dispatch (Suc n) hs err s1))"
proof -
  let ?s = "ready_rej c err s"
  from assms(2) have conf: "confined D ?s" by (rule confined_evolves) simp
  from cascade_terminates[OF assms(1) conf, of "CLOSE c"] assms(3)
  obtain r s' where e: "exec (CLOSE c) ?s r s'" by auto
  then have "exec (SET_FAILED c err) s r s'" by (rule exec.set_failed)
  then have 1: "returns (\<lambda>n. set_failed n c err s) r s'" by (simp add: returns_set_failed)
  from e have 2: "returns (\<lambda>n. close n c ?s) r s'" by (simp add: returns_close)
  from exec_confined[OF e conf] assms(3) have "readiness s' c = readiness ?s c"
    by (simp add: quiet_def)
  with assms(4) have 3: "readiness s' c
      = (if readiness s c = Pending then Rejected err else readiness s c)"
    by (simp add: readiness_ready_rej)
  from assms(4) have "is_component ?s c" by simp
  with e have 4: "is_closed s' c" by (rule exec_CLOSE_closes)
  from assms(4) obtain ob :: obj where ob: "heap s c = Some ob"
    by (auto simp: is_component_def get_data_def split: option.splits)
  then have l: "listeners ob = listeners_of s c" by (rule listeners_of_heap)
  have 5: "emit (Suc (Suc (Suc n))) c Error err s =
              (case set_failed n c err (log_emit c Error err s) of
                 None \<Rightarrow> None
               | Some (Thrown e, s1) \<Rightarrow> Some (Thrown e, s1)
               | Some (Ok, s1) \<Rightarrow> dispatch (Suc n) hs err s1)"
    if "handlers_for Error (listeners_of s c) = Set_failed c # hs" for hs n
    using that ob l unfolding emit_def set_failed_def dispatch_def by simp
  from 1 2 3 4 5 show ?thesis by blast
qed

section \<open>Concrete runs\<close>

lemmas scenario_defs = new_Component_def new_Emitter_def new_ComponentWrapper_def Let_def split_def
  bind_def bind_component_def bind_child_to_parent_def unbind_def subscribe_def on_def
  upd_data_def upd_obj_def get_data_def init_def set_ready_def ready_rej_def settle_def
  readiness_def has_close_def has_on_def children_def is_closed_def listeners_of_def
  handlers_for_def log_emit_def mark_closed_def cleanup_def try_finally_def catch_log_def
  unsubscribe_all_def remove_listener_def removeAllListeners_def foreign_close_def
  close_def emit_def set_failed_def outcome_of_def state_of_def contract_violation_def

theorem bind_unbind_contract_witness:
  "get_data two_parents 1 \<noteq> None
   \<and> contract_violation (fst (bind 1 (Some 2) False two_parents))
   \<and> children (snd (bind 1 (Some 2) False two_parents)) 1 = children two_parents 1
   \<and> 2 \<notin> set (children two_parents 1)
   \<and> contract_violation (fst (unbind 1 (Some 2) two_parents))
   \<and> children (snd (unbind 1 (Some 2) two_parents)) 1 = children two_parents 1"
proof -
  have 1: "get_data two_parents 1 \<noteq> None"
    by (simp add: two_parents_def scenario_defs)
  then obtain td where td: "get_data two_parents 1 = Some td" by blast
  have "map_option bound (get_data two_parents 2) = Some True"
    by (simp add: two_parents_def scenario_defs)
  then have 3: "\<exists>c d. Some (2::nat) = Some c \<and> get_data two_parents c = Some d \<and> bound d"
    by auto
  have 4: "2 \<notin> set (children two_parents 1)"
    by (simp add: two_parents_def scenario_defs)
  from bind_unbind_contract[OF td, of "Some 2" False] 1 3 4 show ?thesis
    by simp
qed

lemmas obs_eval = is_component_def parent_of_def has_hook_def subscriptions_def emissions_def

lemmas eval_defs = scenario_defs console_error_def obs_eval close_async_settled_def
  unhandled_rejection_def do_close_def link_event_def link_children_def

text \<open>Each scenario is evaluated once: the state it builds, then what is observed of it.\<close>

lemma state_of_Some: "f = Some (r, s') \<Longrightarrow> state_of f = s' \<and> outcome_of f = Some r"
  by (simp add: state_of_def outcome_of_def)

lemma returns_close_eq:
  assumes "returns (\<lambda>n. close n c s) r s'" and "close n c s = Some x"
  shows "x = (r, s')"
proof -
  from assms(1) obtain n0 where "\<forall>m\<ge>n0. close m c s = Some (r, s')"
    by (auto simp: returns_def)
  then have "close (max n n0) c s = Some (r, s')" by simp
  moreover from assms(2) have "close (max n n0) c s = Some x"
    unfolding close_def by (rule run_mono) simp
  ultimately show ?thesis by simp
qed

lemma two_parents_eval:
  "\<exists>s. two_parents = s \<and> is_component s 2 \<and> \<not> is_closed s 2 \<and> \<not> has_hook s 2
     \<and> parent_of s 2 = Some 0 \<and> children s 0 = [2] \<and> emissions s 2 Close = 0
     \<and> handlers_for Close (listeners_of s 0) = [On_parent_close 2]
     \<and> handlers_for Close (listeners_of s 1) = []
     \<and> handlers_for Close (listeners_of s 2) = [On_child_close 0]"
  by (simp add: two_parents_def eval_defs)

lemma two_parents_facts:
  "confined {0, 1, 2} two_parents" "is_component two_parents 2" "\<not> is_closed two_parents 2"
  "\<not> has_hook two_parents 2" "parent_of two_parents 2 = Some 0" "children two_parents 0 = [2]"
  "emissions two_parents 2 Close = 0"
  using two_parents_eval by (simp_all add: confined_def)

lemma hooked_child_eval:
  "\<exists>s. hooked_child = s \<and> is_component s 0 \<and> is_component s 1 \<and> has_hook s 1
     \<and> \<not> is_closed s 1 \<and> parent_of s 1 = Some 0 \<and> children s 0 = [1]
     \<and> emissions s 1 Close = 0
     \<and> length (listeners_of s 1) = 5 \<and> length (subscriptions s 1) = 1
     \<and> handlers_for Close (listeners_of s 0) = [On_parent_close 1]
     \<and> handlers_for Close (listeners_of s 1) = []"
  by (simp add: hooked_child_def eval_defs)

lemma hooked_child_facts:
  "is_component hooked_child 1" "has_hook hooked_child 1" "\<not> is_closed hooked_child 1"
  "parent_of hooked_child 1 = Some 0" "children hooked_child 0 = [1]"
  "emissions hooked_child 1 Close = 0"
  "length (listeners_of hooked_child 1) = 5" "length (subscriptions hooked_child 1) = 1"
  "confined {0, 1} hooked_child" "is_component hooked_child 0"
  using hooked_child_eval by (simp_all add: confined_def)

lemma hooked_closed_eval:
  "\<exists>s. close 1 1 hooked_child = Some (Ok, s) \<and> close 1 1 s = Some (Ok, s)
     \<and> emissions s 1 Close = 0 \<and> parent_of s 1 = Some 0 \<and> children s 0 = [1]
     \<and> length (listeners_of s 1) = 5 \<and> length (subscriptions s 1) = 1"
  by (simp add: hooked_child_def eval_defs)

lemma hooked_closed_facts:
  "close 1 1 hooked_child = Some (Ok, hooked_closed)"
  "close 1 1 hooked_closed = Some (Ok, hooked_closed)"
  "emissions hooked_closed 1 Close = 0"
  "parent_of hooked_closed 1 = Some 0"
  "children hooked_closed 0 = [1]"
  "length (listeners_of hooked_closed 1) = 5" "length (subscriptions hooked_closed 1) = 1"
proof -
  from hooked_closed_eval obtain s where c: "close 1 1 hooked_child = Some (Ok, s)"
    and o: "close 1 1 s = Some (Ok, s)" "emissions s 1 Close = 0" "parent_of s 1 = Some 0"
      "children s 0 = [1]" "length (listeners_of s 1) = 5" "length (subscriptions s 1) = 1"
    by blast
  from c have "hooked_closed = s" by (simp add: hooked_closed_def state_of_def)
  with c o show "close 1 1 hooked_child = Some (Ok, hooked_closed)"
    "close 1 1 hooked_closed = Some (Ok, hooked_closed)"
    "emissions hooked_closed 1 Close = 0"
    "parent_of hooked_closed 1 = Some 0"
    "children hooked_closed 0 = [1]"
    "length (listeners_of hooked_closed 1) = 5" "length (subscriptions hooked_closed 1) = 1"
    by simp_all
qed

lemma hooked_rejected_eval:
  "\<exists>s. close_async_settled 9 1 (Some (Str ''no'')) hooked_closed = Some (Ok, s)
     \<and> emissions s 1 Close = 0 \<and> parent_of s 1 = Some 0 \<and> children s 0 = [1]
     \<and> length (listeners_of s 1) = 5 \<and> length (subscriptions s 1) = 1
     \<and> unhandled s = [UserThrown (Str ''boom'')] \<and> pending_close s = []"
  by (simp add: hooked_closed_def hooked_child_def eval_defs eval_nat_numeral)

lemma hooked_rejected_facts:
  "close_async_settled 9 1 (Some (Str ''no'')) hooked_closed = Some (Ok, hooked_rejected)"
  "emissions hooked_rejected 1 Close = 0"
  "parent_of hooked_rejected 1 = Some 0"
  "children hooked_rejected 0 = [1]"
  "length (listeners_of hooked_rejected 1) = 5" "length (subscriptions hooked_rejected 1) = 1"
  "unhandled hooked_rejected = [UserThrown (Str ''boom'')]"
  "pending_close hooked_rejected = []"
proof -
  from hooked_rejected_eval obtain s where
    c: "close_async_settled 9 1 (Some (Str ''no'')) hooked_closed = Some (Ok, s)"
    and o: "emissions s 1 Close = 0" "parent_of s 1 = Some 0" "children s 0 = [1]"
      "length (listeners_of s 1) = 5" "length (subscriptions s 1) = 1"
      "unhandled s = [UserThrown (Str ''boom'')]" "pending_close s = []"
    by blast
  from c have "hooked_rejected = s" by (simp add: hooked_rejected_def state_of_def)
  with c o show
    "close_async_settled 9 1 (Some (Str ''no'')) hooked_closed = Some (Ok, hooked_rejected)"
    "emissions hooked_rejected 1 Close = 0"
    "parent_of hooked_rejected 1 = Some 0"
    "children hooked_rejected 0 = [1]"
    "length (listeners_of hooked_rejected 1) = 5" "length (subscriptions hooked_rejected 1) = 1"
    "unhandled hooked_rejected = [UserThrown (Str ''boom'')]"
    "pending_close hooked_rejected = []"
    by simp_all
qed


lemma relayed_eval:
  "emissions relayed 0 Close = 0
   \<and> (\<exists>s. close 16 0 relayed = Some (Ok, s) \<and> emissions s 0 Close = 2)"
  by (simp add: relayed_def eval_defs eval_nat_numeral)

lemma throwing_child_eval:
  "\<exists>s. throwing_child = s \<and> is_component s 1 \<and> \<not> is_closed s 1 \<and> \<not> has_hook s 1
     \<and> parent_of s 1 = Some 0 \<and> children s 0 = [1]
     \<and> handlers_for Close (listeners_of s 0) = [On_parent_close 1]
     \<and> handlers_for Close (listeners_of s 1) = [User 7 (Some (Str ''boom''))]"
  by (simp add: throwing_child_def eval_defs)

lemma throwing_child_facts:
  "confined {0, 1} throwing_child" "is_component throwing_child 1"
  "\<not> is_closed throwing_child 1" "\<not> has_hook throwing_child 1"
  "parent_of throwing_child 1 = Some 0" "children throwing_child 0 = [1]"
  using throwing_child_eval by (simp_all add: confined_def)

lemma throwing_child_close:
  "outcome_of (close 6 1 throwing_child) = Some (Thrown (UserThrown (Str ''boom'')))"
  by (simp add: throwing_child_def eval_defs eval_nat_numeral)








lemma relayed_facts:
  "outcome_of (close 16 0 relayed) = Some Ok"
  "emissions relayed 0 Close = 0"
  "emissions (state_of (close 16 0 relayed)) 0 Close = 2"
  using relayed_eval by (auto simp: state_of_def outcome_of_def)




theorem close_idempotent_witness:
  "finite {0, 1, 2::nat} \<and> confined {0, 1, 2} two_parents
   \<and> is_component two_parents 2 \<and> \<not> is_closed two_parents 2
   \<and> (\<exists>r s1. returns (\<lambda>n. close n 2 two_parents) r s1
         \<and> (\<forall>m. close (Suc m) 2 s1 = Some (Ok, s1))
         \<and> emissions s1 2 Close = 1 \<and> parent_of s1 2 = None \<and> 2 \<notin> set (children s1 0))
   \<and> finite {0, 1::nat} \<and> confined {0, 1} hooked_child
   \<and> is_component hooked_child 1 \<and> \<not> is_closed hooked_child 1
   \<and> (\<exists>s1 s2. returns (\<lambda>n. close n 1 hooked_child) Ok s1
         \<and> emissions s1 1 Close = 0 \<and> parent_of s1 1 = Some 0
         \<and> returns (\<lambda>n. close_async_settled n 1 None s1) Ok s2
         \<and> emissions s2 1 Close = 1 \<and> parent_of s2 1 = None \<and> 1 \<notin> set (children s2 0)
         \<and> (\<forall>m. close (Suc m) 1 s2 = Some (Ok, s2)))"
proof -
  note a = two_parents_facts
  have fa: "finite {0, 1, 2::nat}" by simp
  from close_idempotent[OF fa a(1) _ a(2,3)] a(4-7)
  have 1: "\<exists>r s1. returns (\<lambda>n. close n 2 two_parents) r s1
         \<and> (\<forall>m. close (Suc m) 2 s1 = Some (Ok, s1))
         \<and> emissions s1 2 Close = 1 \<and> parent_of s1 2 = None \<and> 2 \<notin> set (children s1 0)"
    by simp
  note b = hooked_child_facts
  have fb: "finite {0, 1::nat}" by simp
  from close_idempotent[OF fb hooked_child_facts(9) _ b(1,3)] b(2,4,5,6)
  obtain r s1 where r: "returns (\<lambda>n. close n 1 hooked_child) r s1"
    and 2: "emissions s1 1 Close = 0 \<and> parent_of s1 1 = Some 0"
      "\<exists>s2. returns (\<lambda>n. close_async_settled n 1 None s1) Ok s2
         \<and> emissions s2 1 Close = 1 \<and> parent_of s2 1 = None \<and> 1 \<notin> set (children s2 0)
         \<and> (\<forall>m. close (Suc m) 1 s2 = Some (Ok, s2))"
    by auto
  from returns_close_eq[OF r hooked_closed_facts(1)] have "r = Ok" by simp
  with r 2 have "\<exists>s1 s2. returns (\<lambda>n. close n 1 hooked_child) Ok s1
         \<and> emissions s1 1 Close = 0 \<and> parent_of s1 1 = Some 0
         \<and> returns (\<lambda>n. close_async_settled n 1 None s1) Ok s2
         \<and> emissions s2 1 Close = 1 \<and> parent_of s2 1 = None \<and> 1 \<notin> set (children s2 0)
         \<and> (\<forall>m. close (Suc m) 1 s2 = Some (Ok, s2))"
    by blast
  with 1 fa fb a(1-3) hooked_child_facts(9) b(1,3) show ?thesis by blast
qed

theorem close_idempotent_counterexample:
  "is_component hooked_child 1 \<and> \<not> is_closed hooked_child 1
   \<and> close 1 1 hooked_child = Some (Ok, hooked_closed)
   \<and> close 1 1 hooked_closed = Some (Ok, hooked_closed)
   \<and> emissions hooked_closed 1 Close = 0
   \<and> parent_of hooked_closed 1 = Some 0 \<and> children hooked_closed 0 = [1]
   \<and> close_async_settled 9 1 (Some (Str ''no'')) hooked_closed = Some (Ok, hooked_rejected)
   \<and> pending_close hooked_rejected = []
   \<and> emissions hooked_rejected 1 Close = 0
   \<and> parent_of hooked_rejected 1 = Some 0 \<and> children hooked_rejected 0 = [1]
   \<and> outcome_of (close 16 0 relayed) = Some Ok
   \<and> emissions relayed 0 Close = 0
   \<and> emissions (state_of (close 16 0 relayed)) 0 Close = 2"
  using hooked_child_facts hooked_closed_facts hooked_rejected_facts relayed_facts by simp

theorem close_cleans_up_witness:
  "finite {0, 1::nat} \<and> confined {0, 1} throwing_child
   \<and> is_component throwing_child 1 \<and> \<not> is_closed throwing_child 1
   \<and> parent_of throwing_child 1 = Some 0 \<and> children throwing_child 0 = [1]
   \<and> outcome_of (close 6 1 throwing_child) = Some (Thrown (UserThrown (Str ''boom'')))
   \<and> parent_of (state_of (close 6 1 throwing_child)) 1 = None
   \<and> 1 \<notin> set (children (state_of (close 6 1 throwing_child)) 0)
   \<and> listeners_of (state_of (close 6 1 throwing_child)) 1 = []
   \<and> subscriptions (state_of (close 6 1 throwing_child)) 1 = []"
proof -
  note a = throwing_child_facts
  have f: "finite {0, 1::nat}" by simp
  have link: "\<forall>p. parent_of throwing_child 1 = Some p \<longrightarrow> 1 \<in> set (children throwing_child p)"
    using a(5,6) by simp
  from close_cleans_up[OF f a(1) _ a(2,3) link] a(4,5)
  obtain r s1 where r: "returns (\<lambda>n. close n 1 throwing_child) r (snd (cleanup 1 s1))"
    and c: "parent_of (snd (cleanup 1 s1)) 1 = None" "1 \<notin> set (children (snd (cleanup 1 s1)) 0)"
      "listeners_of (snd (cleanup 1 s1)) 1 = []" "subscriptions (snd (cleanup 1 s1)) 1 = []"
    by auto
  from throwing_child_close obtain t where
    t: "close 6 1 throwing_child = Some (Thrown (UserThrown (Str ''boom'')), t)"
    by (auto simp: outcome_of_def)
  from returns_close_eq[OF r t] have "t = snd (cleanup 1 s1)" by simp
  with t have "state_of (close 6 1 throwing_child) = snd (cleanup 1 s1)"
    by (simp add: state_of_def)
  with c f a(1-3,5,6) throwing_child_close show ?thesis by simp
qed

theorem close_cleans_up_counterexample:
  "is_component hooked_child 1 \<and> \<not> is_closed hooked_child 1
   \<and> close 1 1 hooked_child = Some (Ok, hooked_closed)
   \<and> length (listeners_of hooked_closed 1) = 5 \<and> length (subscriptions hooked_closed 1) = 1
   \<and> parent_of hooked_closed 1 = Some 0 \<and> children hooked_closed 0 = [1]
   \<and> close_async_settled 9 1 (Some (Str ''no'')) hooked_closed = Some (Ok, hooked_rejected)
   \<and> pending_close hooked_rejected = []
   \<and> unhandled hooked_rejected = [UserThrown (Str ''boom'')]
   \<and> length (listeners_of hooked_rejected 1) = 5 \<and> length (subscriptions hooked_rejected 1) = 1
   \<and> parent_of hooked_rejected 1 = Some 0 \<and> children hooked_rejected 0 = [1]"
  using hooked_child_facts hooked_closed_facts hooked_rejected_facts by simp





end
